theory Spec2Isabelle
  imports Main "HOL-Library.Sublist" "HOL-Library.List_Lexorder" "HOL-Library.Multiset"
begin

section \<open>Python strings\<close>

text \<open>
  A Python \<open>str\<close> is a sequence of Unicode code points. It is modelled as a list of
  natural numbers, one per code point, so that \<open>length\<close> counts what \<open>len\<close> counts and the
  order on lists (lexicographic, a proper prefix first) is the order \<open>sorted\<close> uses on
  strings. \<open>ascii\<close> turns an Isabelle string literal into such a list.
\<close>

type_synonym codepoint = nat
type_synonym pystr = "codepoint list"

definition ascii :: "string \<Rightarrow> pystr" where
  "ascii s = map of_char s"

text \<open>The code points for which \<open>str.isspace\<close> holds: the ones \<open>str.strip()\<close> removes.\<close>

definition isspace :: "codepoint \<Rightarrow> bool" where
  "isspace c \<longleftrightarrow>
     (9 \<le> c \<and> c \<le> 13) \<or> (28 \<le> c \<and> c \<le> 32) \<or> c = 133 \<or> c = 160 \<or> c = 5760 \<or>
     (8192 \<le> c \<and> c \<le> 8202) \<or> c = 8232 \<or> c = 8233 \<or> c = 8239 \<or> c = 8287 \<or> c = 12288"

text \<open>
  The line boundaries of \<open>str.splitlines\<close>: LF, VT, FF, CR, FS, GS, RS, NEL, LS and PS;
  CR immediately followed by LF counts as one boundary.
\<close>

definition is_linebreak :: "codepoint \<Rightarrow> bool" where
  "is_linebreak c \<longleftrightarrow>
     (10 \<le> c \<and> c \<le> 13) \<or> (28 \<le> c \<and> c \<le> 30) \<or> c = 133 \<or> c = 8232 \<or> c = 8233"

definition strip :: "pystr \<Rightarrow> pystr" where
  "strip s = rev (dropWhile isspace (rev (dropWhile isspace s)))"

text \<open>
  \<open>str.splitlines()\<close>: the text is cut after every line boundary; the boundary is not part
  of the line, and no line is produced for the empty remainder after the last boundary.
  \<open>line\<close> collects the code points of the line being read.
\<close>

fun splitlines_from :: "pystr \<Rightarrow> pystr \<Rightarrow> pystr list" where
  "splitlines_from line [] = (if line = [] then [] else [line])"
| "splitlines_from line [c] =
     (if is_linebreak c then [line] else [line @ [c]])"
| "splitlines_from line (c # d # cs) =
     (if is_linebreak c then
        line # (if c = 13 \<and> d = 10 then splitlines_from [] cs else splitlines_from [] (d # cs))
      else splitlines_from (line @ [c]) (d # cs))"

definition splitlines :: "pystr \<Rightarrow> pystr list" where
  "splitlines s = splitlines_from [] s"

text \<open>
  \<open>str.split(sep)\<close> for a separator: the text is scanned from the left, every occurrence of
  \<open>sep\<close> found ends a piece and the scan resumes behind it. Python raises \<open>ValueError\<close> for
  the empty separator; that case is decided by the caller of \<open>split_from\<close> below
  (\<open>length sep - 1\<close> code points of the rest are dropped after the first one of the
  occurrence, which is \<open>length sep\<close> in all for a separator that is not empty).
\<close>

function split_from :: "pystr \<Rightarrow> pystr \<Rightarrow> pystr \<Rightarrow> pystr list" where
  "split_from sep piece [] = [piece]"
| "split_from sep piece (c # cs) =
     (if prefix sep (c # cs) then piece # split_from sep [] (drop (length sep - 1) cs)
      else split_from sep (piece @ [c]) cs)"
  by pat_completeness auto
termination
  by (relation "measure (\<lambda>(sep, piece, s). length s)") auto

datatype py_exception =
    ValueError
  | AddressValueError
  | NetmaskValueError
  | KeyError
  | DatabaseError

text \<open>\<open>AddressValueError\<close> and \<open>NetmaskValueError\<close> are subclasses of \<open>ValueError\<close>.\<close>

fun is_ValueError :: "py_exception \<Rightarrow> bool" where
  "is_ValueError ValueError = True"
| "is_ValueError AddressValueError = True"
| "is_ValueError NetmaskValueError = True"
| "is_ValueError _ = False"

definition split :: "pystr \<Rightarrow> pystr \<Rightarrow> py_exception + pystr list" where
  "split s sep = (if sep = [] then Inl ValueError else Inr (split_from sep [] s))"

text \<open>\<open>sep.join(xs)\<close>.\<close>

fun join :: "pystr \<Rightarrow> pystr list \<Rightarrow> pystr" where
  "join sep [] = []"
| "join sep [x] = x"
| "join sep (x # y # ys) = x @ sep @ join sep (y # ys)"

text \<open>
  \<open>re.split(r'[,\n\r]+', s)\<close>: every maximal run of commas, line feeds and carriage
  returns is one separator; the pieces before the first and after the last run are kept
  also when they are empty.
\<close>

definition is_revoke_sep :: "codepoint \<Rightarrow> bool" where
  "is_revoke_sep c \<longleftrightarrow> c = 44 \<or> c = 10 \<or> c = 13"

function re_split_from :: "pystr \<Rightarrow> pystr \<Rightarrow> pystr list" where
  "re_split_from piece [] = [piece]"
| "re_split_from piece (c # cs) =
     (if is_revoke_sep c then piece # re_split_from [] (dropWhile is_revoke_sep cs)
      else re_split_from (piece @ [c]) cs)"
  by pat_completeness auto
termination
  by (relation "measure (\<lambda>(piece, s). length s)") (auto simp: length_dropWhile_le less_Suc_eq_le)

definition re_split :: "pystr \<Rightarrow> pystr list" where
  "re_split s = re_split_from [] s"

section \<open>Parsing and reconciliation\<close>

definition NL :: pystr where
  "NL = [10]"

text \<open>The set comprehension \<open>{ip.strip() for ip in raw_ips if ip.strip()}\<close>.\<close>

definition stripped_set :: "pystr list \<Rightarrow> pystr set" where
  "stripped_set raw_ips = set (filter (\<lambda>ip. ip \<noteq> []) (map strip raw_ips))"

definition get_ips_from_content :: "pystr \<Rightarrow> pystr \<Rightarrow> py_exception + pystr set" where
  "get_ips_from_content content delimiter_value =
     (if delimiter_value = NL then Inr (stripped_set (splitlines content))
      else (case split content delimiter_value of
              Inl e \<Rightarrow> Inl e
            | Inr raw_ips \<Rightarrow> Inr (stripped_set raw_ips)))"

definition ips_to_keep :: "pystr set \<Rightarrow> pystr set \<Rightarrow> pystr set" where
  "ips_to_keep original_ips remove_set = original_ips - remove_set"

text \<open>\<open>"\n".join(sorted(ips))\<close>.\<close>

definition serialize :: "pystr set \<Rightarrow> pystr" where
  "serialize ips = join NL (sorted_list_of_set ips)"

definition update_content :: "pystr \<Rightarrow> pystr set \<Rightarrow> pystr \<Rightarrow> py_exception + pystr" where
  "update_content content remove_set delimiter_value =
     (case get_ips_from_content content delimiter_value of
        Inl e \<Rightarrow> Inl e
      | Inr original_ips \<Rightarrow> Inr (serialize (ips_to_keep original_ips remove_set)))"

definition remove_list_clean :: "pystr \<Rightarrow> pystr set" where
  "remove_list_clean remove_input = stripped_set (re_split remove_input)"

definition potential_removals :: "pystr set \<Rightarrow> pystr set \<Rightarrow> pystr set" where
  "potential_removals original_ips_loaded requested = original_ips_loaded \<inter> requested"

fun fields_from :: "(codepoint \<Rightarrow> bool) \<Rightarrow> pystr \<Rightarrow> pystr \<Rightarrow> pystr list" where
  "fields_from P piece [] = [piece]"
| "fields_from P piece (c # cs) =
     (if P c then piece # fields_from P [] cs else fields_from P (piece @ [c]) cs)"

definition segment :: "(codepoint \<Rightarrow> bool) \<Rightarrow> pystr \<Rightarrow> pystr \<Rightarrow> bool" where
  "segment P s t \<longleftrightarrow>
     (\<exists>pre post. s = pre @ t @ post \<and> (\<forall>c\<in>set t. \<not> P c) \<and>
        (pre = [] \<or> P (last pre)) \<and> (post = [] \<or> P (hd post)))"

definition trimmed_of :: "pystr \<Rightarrow> pystr \<Rightarrow> bool" where
  "trimmed_of t x \<longleftrightarrow>
     (\<exists>l r. t = l @ x @ r \<and> (\<forall>c\<in>set l. isspace c) \<and> (\<forall>c\<in>set r. isspace c) \<and>
        (x \<noteq> [] \<longrightarrow> \<not> isspace (hd x) \<and> \<not> isspace (last x)))"

definition parse_spec :: "pystr \<Rightarrow> pystr \<Rightarrow> pystr set \<Rightarrow> bool" where
  "parse_spec content delimiter result \<longleftrightarrow>
     (if delimiter = NL then
        result = {x. x \<noteq> [] \<and> (\<exists>t. segment is_linebreak content t \<and> trimmed_of t x)}
      else
        (\<exists>tokens. join delimiter tokens = content \<and> (\<forall>t\<in>set tokens. \<not> sublist delimiter t) \<and>
           result = {x. x \<noteq> [] \<and> (\<exists>t\<in>set tokens. trimmed_of t x)}))"

definition normalized :: "pystr \<Rightarrow> bool" where
  "normalized x \<longleftrightarrow> x \<noteq> [] \<and> \<not> isspace (hd x) \<and> \<not> isspace (last x)"

section \<open>The standard library's address parser\<close>

definition is_digit :: "codepoint \<Rightarrow> bool" where
  "is_digit c \<longleftrightarrow> 48 \<le> c \<and> c \<le> 57"

definition is_hex_digit :: "codepoint \<Rightarrow> bool" where
  "is_hex_digit c \<longleftrightarrow> is_digit c \<or> (65 \<le> c \<and> c \<le> 70) \<or> (97 \<le> c \<and> c \<le> 102)"

definition digit_value :: "codepoint \<Rightarrow> nat" where
  "digit_value c = (if c \<le> 57 then c - 48 else if c \<le> 70 then c - 55 else c - 87)"

definition py_int :: "pystr \<Rightarrow> nat \<Rightarrow> py_exception + nat" where
  "py_int s base =
     (if s = [] then Inl ValueError
      else Inr (foldl (\<lambda>n c. n * base + digit_value c) 0 s))"

definition parse_octet :: "pystr \<Rightarrow> py_exception + nat" where
  "parse_octet octet_str =
     (if octet_str = [] then Inl ValueError
      else if \<not> list_all is_digit octet_str then Inl ValueError
      else if length octet_str > 3 then Inl ValueError
      else if octet_str \<noteq> [48] \<and> hd octet_str = 48 then Inl ValueError
      else (case py_int octet_str 10 of
              Inl e \<Rightarrow> Inl e
            | Inr octet_int \<Rightarrow> if octet_int > 255 then Inl ValueError else Inr octet_int))"

fun map_raising :: "('a \<Rightarrow> py_exception + 'b) \<Rightarrow> 'a list \<Rightarrow> py_exception + 'b list" where
  "map_raising f [] = Inr []"
| "map_raising f (x # xs) =
     (case f x of
        Inl e \<Rightarrow> Inl e
      | Inr y \<Rightarrow> (case map_raising f xs of Inl e \<Rightarrow> Inl e | Inr ys \<Rightarrow> Inr (y # ys)))"

definition from_bytes :: "nat list \<Rightarrow> py_exception + nat" where
  "from_bytes bs =
     (if list_all (\<lambda>b. b < 256) bs then Inr (foldl (\<lambda>n b. n * 256 + b) 0 bs)
      else Inl ValueError)"

definition v4_ip_int_from_string :: "pystr \<Rightarrow> py_exception + nat" where
  "v4_ip_int_from_string ip_str =
     (if ip_str = [] then Inl AddressValueError
      else (case split ip_str [46] of
              Inl e \<Rightarrow> Inl e
            | Inr octets \<Rightarrow>
                if length octets \<noteq> 4 then Inl AddressValueError
                else (case (case map_raising parse_octet octets of
                              Inl e \<Rightarrow> Inl e | Inr bs \<Rightarrow> from_bytes bs) of
                        Inl e \<Rightarrow> if is_ValueError e then Inl AddressValueError else Inl e
                      | Inr ip_int \<Rightarrow> Inr ip_int)))"

definition IPv4Address :: "pystr \<Rightarrow> py_exception + nat" where
  "IPv4Address addr_str =
     (if 47 \<in> set addr_str then Inl AddressValueError else v4_ip_int_from_string addr_str)"

definition parse_hextet :: "pystr \<Rightarrow> py_exception + nat" where
  "parse_hextet hextet_str =
     (if \<not> list_all is_hex_digit hextet_str then Inl ValueError
      else if length hextet_str > 4 then Inl ValueError
      else py_int hextet_str 16)"

definition hex_digit :: "nat \<Rightarrow> codepoint" where
  "hex_digit d = (if d < 10 then 48 + d else 87 + d)"

function hex_str :: "nat \<Rightarrow> pystr" where
  "hex_str n = (if n < 16 then [hex_digit n] else hex_str (n div 16) @ [hex_digit (n mod 16)])"
  by pat_completeness auto
termination
proof (relation "measure (\<lambda>n. n)")
  show "wf (measure (\<lambda>n. n))" by simp
next
  fix n :: nat
  assume "\<not> n < 16"
  then show "(n div 16, n) \<in> measure (\<lambda>n. n)" by simp
qed

fun find_skip_index :: "pystr list \<Rightarrow> nat list \<Rightarrow> nat option \<Rightarrow> py_exception + nat option" where
  "find_skip_index parts [] skip_index = Inr skip_index"
| "find_skip_index parts (i # indices) skip_index =
     (if parts ! i = [] then
        (if skip_index \<noteq> None then Inl AddressValueError
         else find_skip_index parts indices (Some i))
      else find_skip_index parts indices skip_index)"

fun parse_hextets :: "nat \<Rightarrow> pystr list \<Rightarrow> py_exception + nat" where
  "parse_hextets ip_int [] = Inr ip_int"
| "parse_hextets ip_int (part # parts) =
     (case parse_hextet part of
        Inl e \<Rightarrow> Inl e
      | Inr h \<Rightarrow> parse_hextets (or (push_bit 16 ip_int) h) parts)"

definition hextets_to_int :: "pystr list \<Rightarrow> nat \<Rightarrow> nat \<Rightarrow> nat \<Rightarrow> py_exception + nat" where
  "hextets_to_int parts parts_hi parts_lo parts_skipped =
     (case (case parse_hextets 0 (take parts_hi parts) of
              Inl e \<Rightarrow> Inl e
            | Inr ip_int \<Rightarrow>
                parse_hextets (push_bit (16 * parts_skipped) ip_int)
                  (drop (length parts - parts_lo) parts)) of
        Inl e \<Rightarrow> if is_ValueError e then Inl AddressValueError else Inl e
      | Inr ip_int \<Rightarrow> Inr ip_int)"

definition ipv4_suffix :: "pystr list \<Rightarrow> py_exception + pystr list" where
  "ipv4_suffix parts =
     (if 46 \<in> set (last parts) then
        (case IPv4Address (last parts) of
           Inl e \<Rightarrow> Inl e
         | Inr ipv4_int \<Rightarrow>
             Inr (butlast parts @
                  [hex_str (and (drop_bit 16 ipv4_int) 65535), hex_str (and ipv4_int 65535)]))
      else Inr parts)"

definition v6_ip_int_from_string :: "pystr \<Rightarrow> py_exception + nat" where
  "v6_ip_int_from_string ip_str =
     (if ip_str = [] then Inl AddressValueError
      else (case split ip_str [58] of
        Inl e \<Rightarrow> Inl e
      | Inr parts0 \<Rightarrow>
          if length parts0 < 3 then Inl AddressValueError
          else (case ipv4_suffix parts0 of
            Inl e \<Rightarrow> Inl e
          | Inr parts \<Rightarrow>
              if length parts > 9 then Inl AddressValueError
              else (case find_skip_index parts [1 ..< length parts - 1] None of
                Inl e \<Rightarrow> Inl e
              | Inr (Some skip_index) \<Rightarrow>
                  if hd parts = [] \<and> skip_index - 1 \<noteq> 0 then Inl AddressValueError
                  else if last parts = [] \<and> length parts - skip_index - 1 - 1 \<noteq> 0
                    then Inl AddressValueError
                  else
                    (let parts_hi = (if hd parts = [] then skip_index - 1 else skip_index);
                         parts_lo = (if last parts = [] then length parts - skip_index - 1 - 1
                                     else length parts - skip_index - 1);
                         parts_skipped = 8 - int (parts_hi + parts_lo)
                     in if parts_skipped < 1 then Inl AddressValueError
                        else hextets_to_int parts parts_hi parts_lo (nat parts_skipped))
              | Inr None \<Rightarrow>
                  if length parts \<noteq> 8 then Inl AddressValueError
                  else if hd parts = [] then Inl AddressValueError
                  else if last parts = [] then Inl AddressValueError
                  else hextets_to_int parts (length parts) 0 0))))"

definition split_scope_id :: "pystr \<Rightarrow> py_exception + pystr \<times> pystr option" where
  "split_scope_id ip_str =
     (let addr = takeWhile (\<lambda>c. c \<noteq> 37) ip_str
      in case dropWhile (\<lambda>c. c \<noteq> 37) ip_str of
           [] \<Rightarrow> Inr (addr, None)
         | sep # scope_id \<Rightarrow>
             if scope_id = [] \<or> 37 \<in> set scope_id then Inl AddressValueError
             else Inr (addr, Some scope_id))"

definition IPv6Address :: "pystr \<Rightarrow> py_exception + nat \<times> pystr option" where
  "IPv6Address addr_str =
     (if 47 \<in> set addr_str then Inl AddressValueError
      else (case split_scope_id addr_str of
              Inl e \<Rightarrow> Inl e
            | Inr (addr, scope_id) \<Rightarrow>
                (case v6_ip_int_from_string addr of
                   Inl e \<Rightarrow> Inl e
                 | Inr ip \<Rightarrow> Inr (ip, scope_id))))"

datatype ip_object = IPv4 nat | IPv6 nat "pystr option"

definition caught_address_error :: "py_exception \<Rightarrow> bool" where
  "caught_address_error e \<longleftrightarrow> e = AddressValueError \<or> e = NetmaskValueError"

definition ip_address :: "pystr \<Rightarrow> py_exception + ip_object" where
  "ip_address address =
     (case IPv4Address address of
        Inr ip \<Rightarrow> Inr (IPv4 ip)
      | Inl e \<Rightarrow>
          if \<not> caught_address_error e then Inl e
          else (case IPv6Address address of
                  Inr (ip, scope_id) \<Rightarrow> Inr (IPv6 ip scope_id)
                | Inl e' \<Rightarrow> if \<not> caught_address_error e' then Inl e' else Inl ValueError))"

definition is_valid_ip :: "pystr \<Rightarrow> py_exception + bool" where
  "is_valid_ip ip_string =
     (case ip_address ip_string of
        Inr ip \<Rightarrow> Inr True
      | Inl e \<Rightarrow> if is_ValueError e then Inr False else Inl e)"

section \<open>The audit report\<close>

datatype lang = Es | En

record report_labels =
  title :: pystr
  date :: pystr
  section_summary :: pystr
  section_details :: pystr
  total_initial :: pystr
  total_removed :: pystr
  total_final :: pystr
  ip_list_header :: "pystr list"
  status_removed :: pystr
  status_maintained :: pystr
  conclusion :: pystr

definition R :: "lang \<Rightarrow> report_labels" where
  "R language =
     (case language of
        Es \<Rightarrow>
          \<lparr>title = ascii ''Reporte de Auditor'' @ [237] @ ascii ''a de Acceso Restringido'',
           date = ascii ''Fecha de Generaci'' @ [243] @ ascii ''n:'',
           section_summary = ascii ''1. Resumen Ejecutivo de la Auditor'' @ [237] @ ascii ''a'',
           section_details = ascii ''2. Detalle de IPs Revocadas'',
           total_initial = ascii ''Total de IPs Iniciales:'',
           total_removed = ascii ''Total de IPs Eliminadas:'',
           total_final = ascii ''Total de IPs Finales:'',
           ip_list_header = [ascii ''IP Revocada'', ascii ''Estado''],
           status_removed = ascii ''REVOCADA (Coincidencia)'',
           status_maintained = ascii ''Mantenida'',
           conclusion = ascii ''La herramienta ejecut'' @ [243] @ ascii '' la revocaci'' @ [243] @
             ascii ''n de acceso seg'' @ [250] @
             ascii ''n lo planificado, garantizando el principio de m'' @ [237] @
             ascii ''nimo privilegio y el cumplimiento normativo.''\<rparr>
      | En \<Rightarrow>
          \<lparr>title = ascii ''Restricted Access Audit Report'',
           date = ascii ''Generation Date:'',
           section_summary = ascii ''1. Executive Audit Summary'',
           section_details = ascii ''2. Revoked IPs Detail'',
           total_initial = ascii ''Total Initial IPs:'',
           total_removed = ascii ''Total Removed IPs:'',
           total_final = ascii ''Total Final IPs:'',
           ip_list_header = [ascii ''Revoked IP'', ascii ''Status''],
           status_removed = ascii ''REVOKED (Match Found)'',
           status_maintained = ascii ''Maintained'',
           conclusion = ascii ''The tool executed access revocation as planned, ensuring the principle of least privilege and regulatory compliance.''\<rparr>)"

datatype cell = Text pystr | Number nat

datatype style = Title | Normal | H2

datatype flowable = Paragraph pystr style | Spacer | Table "cell list list"

definition summary_data :: "lang \<Rightarrow> pystr set \<Rightarrow> pystr set \<Rightarrow> pystr set \<Rightarrow> cell list list" where
  "summary_data language original_ips removals updated_ips =
     [[Text (total_initial (R language)), Number (card original_ips)],
      [Text (total_removed (R language)), Number (card removals)],
      [Text (total_final (R language)), Number (card updated_ips)]]"

definition ip_data :: "lang \<Rightarrow> pystr set \<Rightarrow> cell list list" where
  "ip_data language removals =
     [map Text (ip_list_header (R language))] @
     map (\<lambda>ip. [Text ip, Text (status_removed (R language))]) (sorted_list_of_set removals) @
     (if removals = {} then [[Text (ascii ''N/A''), Text (status_maintained (R language))]] else [])"

definition generate_pdf_report ::
  "pystr set \<Rightarrow> pystr set \<Rightarrow> pystr set \<Rightarrow> lang \<Rightarrow> pystr \<Rightarrow> flowable list" where
  "generate_pdf_report original_ips removals updated_ips language now =
     [Paragraph (ascii ''<b>'' @ title (R language) @ ascii ''</b>'') Title,
      Spacer,
      Paragraph (ascii ''<b>'' @ date (R language) @ ascii ''</b> '' @ now) Normal,
      Spacer,
      Paragraph (section_summary (R language)) H2,
      Table (summary_data language original_ips removals updated_ips),
      Spacer,
      Paragraph (conclusion (R language)) Normal,
      Spacer,
      Paragraph (section_details (R language)) H2,
      Table (ip_data language removals)]"

fun tables :: "flowable list \<Rightarrow> cell list list list" where
  "tables [] = []"
| "tables (Table rows # story) = rows # tables story"
| "tables (_ # story) = tables story"

section \<open>The audit ledger\<close>

record audit_event =
  event_id :: nat
  timestamp :: pystr
  action :: pystr
  user_id :: "pystr option"
  target_file :: pystr
  ips_revoked :: nat

record database =
  audit_events :: "audit_event list"
  sqlite_sequence :: nat

definition init_db :: "database option \<Rightarrow> database" where
  "init_db file =
     (case file of
        None \<Rightarrow> \<lparr>audit_events = [], sqlite_sequence = 0\<rparr>
      | Some db \<Rightarrow> db)"

definition MAX_ROWID :: nat where
  "MAX_ROWID = 2 ^ 63 - 1"

definition next_id :: "database \<Rightarrow> nat" where
  "next_id db = Suc (fold max (map event_id (audit_events db)) (sqlite_sequence db))"

definition log_audit_event ::
  "bool \<Rightarrow> pystr \<Rightarrow> pystr option \<Rightarrow> pystr \<Rightarrow> nat \<Rightarrow> database \<Rightarrow> py_exception + database" where
  "log_audit_event store_ok now user target revoked db =
     (if \<not> store_ok then Inl DatabaseError
      else if next_id db > MAX_ROWID then Inl DatabaseError
      else Inr (db\<lparr>audit_events := audit_events db @
                    [\<lparr>event_id = next_id db, timestamp = now,
                      action = ascii ''Access Revocation Audit'', user_id = user,
                      target_file = target, ips_revoked = revoked\<rparr>],
                  sqlite_sequence := next_id db\<rparr>))"

type_synonym log_row = "pystr \<times> pystr \<times> pystr option \<times> pystr \<times> nat"

definition drop_id :: "audit_event \<Rightarrow> log_row" where
  "drop_id e = (timestamp e, action e, user_id e, target_file e, ips_revoked e)"

text \<open>
  \<open>ORDER BY timestamp DESC\<close>: the rows by decreasing timestamp (text compared code point
  by code point). The SQL text names no second key; SQLite's sorter returns rows with
  equal timestamps in the order of their insertion, and so does this stable sort.
\<close>

definition order_by_timestamp_desc :: "audit_event list \<Rightarrow> audit_event list" where
  "order_by_timestamp_desc rows = rev (sort_key timestamp (rev rows))"

definition load_audit_logs :: "bool \<Rightarrow> database \<Rightarrow> py_exception + log_row list" where
  "load_audit_logs store_ok db =
     (if \<not> store_ok then Inl DatabaseError
      else Inr (map drop_id (order_by_timestamp_desc (audit_events db))))"

text \<open>
  A sequence of calls of \<open>log_audit_event\<close> on a store that accepts writes, each with the
  clock reading, user, target file and number of removals of the call; it stops at the first call that
  raises.
\<close>

type_synonym log_call = "pystr \<times> pystr option \<times> pystr \<times> nat"

fun log_all :: "log_call list \<Rightarrow> database \<Rightarrow> py_exception + database" where
  "log_all [] db = Inr db"
| "log_all ((now, user, target, revoked) # calls) db =
     (case log_audit_event True now user target revoked db of
        Inl e \<Rightarrow> Inl e
      | Inr db' \<Rightarrow> log_all calls db')"

text \<open>The row that \<open>load_audit_logs\<close> shows for a call.\<close>

fun logged :: "log_call \<Rightarrow> log_row" where
  "logged (now, user, target, revoked) = (now, ascii ''Access Revocation Audit'', user, target, revoked)"

section \<open>The page script\<close>

datatype delimiter_option = New_Line | Comma | Space | Tab

fun delimiter_values :: "delimiter_option \<Rightarrow> pystr" where
  "delimiter_values New_Line = NL"
| "delimiter_values Comma = [44]"
| "delimiter_values Space = [32]"
| "delimiter_values Tab = [9]"

record widgets =
  lang_selection :: lang
  delimiter_name :: delimiter_option
  uploaded_file :: "(pystr \<times> pystr) option"
  remove_input :: pystr
  button :: bool

text \<open>
  What a run of the script reads from outside: the two clock readings (already formatted,
  for the report and for the ledger row), whether the store accepts a write and a read
  (\<open>sqlite3\<close> raises otherwise), and the order in which Python iterates a set, which
  the language leaves open: some enumeration of the elements, each once.
\<close>

record environment =
  report_clock :: pystr
  ledger_clock :: pystr
  store_writable :: bool
  store_readable :: bool
  set_order :: "pystr set \<Rightarrow> pystr list"

definition enumerates :: "(pystr set \<Rightarrow> pystr list) \<Rightarrow> pystr set \<Rightarrow> bool" where
  "enumerates order S \<longleftrightarrow> set (order S) = S \<and> distinct (order S)"

record session_state =
  success :: bool
  updated_content_txt :: "pystr option"
  pdf_report :: "flowable list option"
  file_name_base :: "pystr option"

datatype notice =
    Error_empty
  | Error_validation "pystr list"
  | Warning_audit nat nat
  | Info_no_match
  | Success_notice

record downloads =
  txt_data :: pystr
  txt_file_name :: pystr
  pdf_data :: "flowable list"
  pdf_file_name :: pystr

datatype ending = Completed | Stopped | Rerun | Uncaught py_exception

record run_result =
  ending :: ending
  notices :: "notice list"
  offered :: "downloads option"
  history :: "(py_exception + log_row list) option"
  session :: session_state
  store :: database

definition replace :: "pystr \<Rightarrow> pystr \<Rightarrow> pystr \<Rightarrow> pystr" where
  "replace s old new = join new (split_from old [] s)"

fun invalid_ips :: "pystr list \<Rightarrow> py_exception + pystr list" where
  "invalid_ips [] = Inr []"
| "invalid_ips (ip # ips) =
     (case is_valid_ip ip of
        Inl e \<Rightarrow> Inl e
      | Inr ok \<Rightarrow>
          (case invalid_ips ips of
             Inl e \<Rightarrow> Inl e
           | Inr rest \<Rightarrow> Inr (if ok then rest else ip # rest)))"

text \<open>The preview of the audit (lines 267-273): a warning with the two counts, or a note.\<close>

definition audit_notice :: "pystr set \<Rightarrow> pystr set \<Rightarrow> notice" where
  "audit_notice original requested =
     (if potential_removals original requested \<noteq> {}
      then Warning_audit (card (potential_removals original requested)) (card original)
      else Info_no_match)"

definition revoke_action ::
  "environment \<Rightarrow> lang \<Rightarrow> pystr \<Rightarrow> pystr \<Rightarrow> pystr \<Rightarrow> pystr set \<Rightarrow> pystr set \<Rightarrow>
   session_state \<Rightarrow> database \<Rightarrow> py_exception + session_state \<times> database" where
  "revoke_action env language name content delimiter_value requested removals ss db =
     (case update_content content requested delimiter_value of
        Inl e \<Rightarrow> Inl e
      | Inr updated_content \<Rightarrow>
     (case get_ips_from_content content delimiter_value of
        Inl e \<Rightarrow> Inl e
      | Inr original_ips \<Rightarrow>
     (case get_ips_from_content updated_content NL of
        Inl e \<Rightarrow> Inl e
      | Inr updated_ips \<Rightarrow>
     (let pdf_buffer = generate_pdf_report original_ips removals updated_ips language
                         (report_clock env)
      in case log_audit_event (store_writable env) (ledger_clock env)
                (Some (ascii ''admin_default'')) name (card removals) db of
           Inl e \<Rightarrow> Inl e
         | Inr db' \<Rightarrow>
             Inr (ss\<lparr>updated_content_txt := Some updated_content,
                     pdf_report := Some pdf_buffer,
                     file_name_base := Some (replace name (ascii ''.txt'') []),
                     success := True\<rparr>, db')))))"

definition finish :: "ending \<Rightarrow> notice list \<Rightarrow> session_state \<Rightarrow> database \<Rightarrow> run_result" where
  "finish e ns ss db =
     \<lparr>ending = e, notices = ns, offered = None, history = None, session = ss, store = db\<rparr>"

definition downloads_and_history ::
  "environment \<Rightarrow> notice list \<Rightarrow> session_state \<Rightarrow> database \<Rightarrow> run_result" where
  "downloads_and_history env ns ss db =
     (if success ss then
        (case (updated_content_txt ss, pdf_report ss, file_name_base ss) of
           (Some txt, Some pdf, Some base) \<Rightarrow>
             \<lparr>ending = Completed, notices = ns @ [Success_notice],
              offered = Some \<lparr>txt_data = txt, txt_file_name = base @ ascii ''_updated.txt'',
                              pdf_data = pdf, pdf_file_name = base @ ascii ''_Audit_Report.pdf''\<rparr>,
              history = Some (load_audit_logs (store_readable env) db),
              session = ss, store = db\<rparr>
         | _ \<Rightarrow> finish (Uncaught KeyError) (ns @ [Success_notice]) ss db)
      else
        \<lparr>ending = Completed, notices = ns, offered = None,
         history = Some (load_audit_logs (store_readable env) db),
         session = ss, store = db\<rparr>)"

definition script ::
  "environment \<Rightarrow> widgets \<Rightarrow> session_state \<Rightarrow> database option \<Rightarrow> run_result" where
  "script env w ss file =
     (let db = init_db file;
          delimiter_value = delimiter_values (delimiter_name w)
      in case uploaded_file w of
           None \<Rightarrow> downloads_and_history env [] ss db
         | Some (name, content) \<Rightarrow>
     (case get_ips_from_content content delimiter_value of
        Inl e \<Rightarrow> finish (Uncaught e) [] ss db
      | Inr original_ips_loaded \<Rightarrow>
          if remove_input w = [] then downloads_and_history env [] ss db
          else
            (let requested = remove_list_clean (remove_input w)
             in if requested = {} then finish Stopped [Error_empty] (ss\<lparr>success := False\<rparr>) db
                else
     (case invalid_ips (set_order env requested) of
        Inl e \<Rightarrow> finish (Uncaught e) [] ss db
      | Inr invalid \<Rightarrow>
          if invalid \<noteq> [] then
            finish Stopped [Error_validation invalid] (ss\<lparr>success := False\<rparr>) db
          else
            (let removals = potential_removals original_ips_loaded requested;
                 audit = audit_notice original_ips_loaded requested
             in if \<not> button w then downloads_and_history env [audit] ss db
                else
                  (case revoke_action env (lang_selection w) name content delimiter_value
                          requested removals ss db of
                     Inl e \<Rightarrow> finish (Uncaught e) [audit] ss db
                   | Inr (ss', db') \<Rightarrow> finish Rerun [audit] ss' db'))))))"

definition interaction ::
  "environment \<Rightarrow> widgets \<Rightarrow> session_state \<Rightarrow> database option \<Rightarrow> run_result" where
  "interaction env w ss file =
     (let r = script env w ss file
      in if ending r = Rerun
         then script env (w\<lparr>button := False\<rparr>) (session r) (Some (store r))
         else r)"

definition fresh_session :: session_state where
  "fresh_session =
     \<lparr>success = False, updated_content_txt = None, pdf_report = None, file_name_base = None\<rparr>"

section \<open>Example inputs\<close>

text \<open>
  Concrete inputs at which the theorems below are instantiated: an environment whose
  store accepts reads and writes and one whose store rejects writes, the three-line
  allow-list of the specification's scenario, and widget states for an upload of it.
\<close>

abbreviation env_ok :: environment where
  "env_ok \<equiv> \<lparr>report_clock = ascii ''2025-01-01 10:00:00'',
              ledger_clock = ascii ''2025-01-01T10:00:00.000001'',
              store_writable = True, store_readable = True,
              set_order = sorted_list_of_set\<rparr>"

abbreviation env_down :: environment where
  "env_down \<equiv> \<lparr>report_clock = ascii ''2025-01-01 10:00:00'',
                ledger_clock = ascii ''2025-01-01T10:00:00.000001'',
                store_writable = False, store_readable = True,
                set_order = sorted_list_of_set\<rparr>"

abbreviation three_lines :: pystr where
  "three_lines \<equiv> ascii ''1.1.1.1'' @ NL @ ascii ''2.2.2.2'' @ NL @ ascii ''3.3.3.3''"

abbreviation page :: "delimiter_option \<Rightarrow> pystr \<Rightarrow> pystr \<Rightarrow> bool \<Rightarrow> widgets" where
  "page d content text pressed \<equiv>
     \<lparr>lang_selection = En, delimiter_name = d,
      uploaded_file = Some (ascii ''allow.txt'', content),
      remove_input = text, button = pressed\<rparr>"

abbreviation empty_store :: database where
  "empty_store \<equiv> \<lparr>audit_events = [], sqlite_sequence = 0\<rparr>"

lemma fields_from_acc:
  "fields_from P piece s = (piece @ hd (fields_from P [] s)) # tl (fields_from P [] s)"
proof (induction s arbitrary: piece)
  case Nil
  then show ?case by simp
next
  case (Cons c cs)
  show ?case
  proof (cases "P c")
    case True
    then show ?thesis by simp
  next
    case False
    then show ?thesis
      using Cons.IH [of "piece @ [c]"] Cons.IH [of "[c]"] by simp
  qed
qed

lemma fields_from_unfold:
  "fields_from P [] s =
     takeWhile (\<lambda>c. \<not> P c) s #
       (case dropWhile (\<lambda>c. \<not> P c) s of [] \<Rightarrow> [] | c # r \<Rightarrow> fields_from P [] r)"
proof (induction s)
  case Nil
  then show ?case by simp
next
  case (Cons c cs)
  show ?case
  proof (cases "P c")
    case True
    then show ?thesis by simp
  next
    case False
    then show ?thesis
      using Cons.IH fields_from_acc [of P "[c]" cs] by simp
  qed
qed

lemma segment_whole:
  assumes "\<forall>c\<in>set s. \<not> P c"
  shows "segment P s t \<longleftrightarrow> t = s"
proof
  assume "segment P s t"
  then obtain pre post where s: "s = pre @ t @ post" and pre: "pre = [] \<or> P (last pre)"
    and post: "post = [] \<or> P (hd post)"
    by (auto simp: segment_def)
  have "pre = []"
  proof (rule ccontr)
    assume "pre \<noteq> []"
    with pre have "P (last pre)" "last pre \<in> set s" using s by auto
    with assms show False by blast
  qed
  moreover have "post = []"
  proof (rule ccontr)
    assume "post \<noteq> []"
    with post have "P (hd post)" "hd post \<in> set s" using s by auto
    with assms show False by blast
  qed
  ultimately show "t = s" using s by simp
next
  assume "t = s"
  with assms show "segment P s t"
    unfolding segment_def by (intro exI [of _ "[]"]) simp
qed

lemma takeWhile_segment:
  assumes "\<forall>c\<in>set t. \<not> P c" "post = [] \<or> P (hd post)"
  shows "takeWhile (\<lambda>c. \<not> P c) (t @ post) = t"
proof (cases post)
  case Nil
  with assms show ?thesis by simp
next
  case (Cons a post')
  with assms show ?thesis by simp
qed

lemma segment_step:
  assumes dw: "dropWhile (\<lambda>c. \<not> P c) s = c # r"
  shows "segment P s t \<longleftrightarrow> t = takeWhile (\<lambda>c. \<not> P c) s \<or> segment P r t"
proof -
  let ?tw = "takeWhile (\<lambda>c. \<not> P c) s"
  have s: "s = ?tw @ c # r" using dw takeWhile_dropWhile_id [of "\<lambda>c. \<not> P c" s] by simp
  have Pc: "P c" using dw hd_dropWhile [of "\<lambda>c. \<not> P c" s] by auto
  have tw: "\<forall>x\<in>set ?tw. \<not> P x" by (auto dest: set_takeWhileD)
  show ?thesis
  proof
    assume "segment P s t"
    then obtain pre post where st: "s = pre @ t @ post" and t: "\<forall>c\<in>set t. \<not> P c"
      and pre: "pre = [] \<or> P (last pre)" and post: "post = [] \<or> P (hd post)"
      by (auto simp: segment_def)
    show "t = ?tw \<or> segment P r t"
    proof (cases "pre = []")
      case True
      with st t post takeWhile_segment [of t P post] show ?thesis by simp
    next
      case False
      with pre have lp: "P (last pre)" "last pre \<in> set pre" by auto
      then have d: "dropWhile (\<lambda>c. \<not> P c) s = dropWhile (\<lambda>c. \<not> P c) pre @ t @ post"
        using st dropWhile_append1 [of "last pre" pre "\<lambda>c. \<not> P c" "t @ post"] by simp
      have ne: "dropWhile (\<lambda>c. \<not> P c) pre \<noteq> []"
        using lp by auto
      then obtain pre' where p': "dropWhile (\<lambda>c. \<not> P c) pre = c # pre'"
        using d dw by (cases "dropWhile (\<lambda>c. \<not> P c) pre") auto
      with d dw have r: "r = pre' @ t @ post" by simp
      have "pre' = [] \<or> P (last pre')"
      proof (cases "pre' = []")
        case True then show ?thesis by simp
      next
        case False
        have "last (dropWhile (\<lambda>c. \<not> P c) pre) = last pre"
          using ne by (metis last_appendR takeWhile_dropWhile_id)
        with p' False lp show ?thesis by simp
      qed
      with r t post have "segment P r t" by (auto simp: segment_def)
      then show ?thesis ..
    qed
  next
    assume "t = ?tw \<or> segment P r t"
    then show "segment P s t"
    proof
      assume "t = ?tw"
      with s tw Pc show ?thesis
        unfolding segment_def by (intro exI [of _ "[]"] exI [of _ "c # r"]) simp
    next
      assume "segment P r t"
      then obtain pre post where rt: "r = pre @ t @ post" and t: "\<forall>c\<in>set t. \<not> P c"
        and pre: "pre = [] \<or> P (last pre)" and post: "post = [] \<or> P (hd post)"
        by (auto simp: segment_def)
      have "s = (?tw @ c # pre) @ t @ post" using s rt by simp
      moreover have "P (last (?tw @ c # pre))" using pre Pc by auto
      ultimately show ?thesis using t post unfolding segment_def by blast
    qed
  qed
qed

lemma fields_from_segment: "t \<in> set (fields_from P [] s) \<longleftrightarrow> segment P s t"
proof (induction "length s" arbitrary: s rule: less_induct)
  case less
  show ?case
  proof (cases "dropWhile (\<lambda>c. \<not> P c) s")
    case Nil
    then have free: "\<forall>c\<in>set s. \<not> P c" by simp
    then have "takeWhile (\<lambda>c. \<not> P c) s = s" by simp
    then have "fields_from P [] s = [s]"
      by (subst fields_from_unfold) (simp add: Nil)
    with free show ?thesis by (simp add: segment_whole)
  next
    case (Cons c r)
    have "length (dropWhile (\<lambda>c. \<not> P c) s) \<le> length s" by (rule length_dropWhile_le)
    with Cons have "length r < length s" by simp
    from less [OF this] have IH: "t \<in> set (fields_from P [] r) \<longleftrightarrow> segment P r t" .
    have "fields_from P [] s = takeWhile (\<lambda>c. \<not> P c) s # fields_from P [] r"
      by (subst fields_from_unfold) (simp add: Cons)
    with IH show ?thesis by (simp add: segment_step [OF Cons])
  qed
qed

lemma splitlines_from_Cons:
  "splitlines_from line (c # cs) =
     (if is_linebreak c then
        line # (if c = 13 \<and> cs \<noteq> [] \<and> hd cs = 10 then splitlines_from [] (tl cs)
                else splitlines_from [] cs)
      else splitlines_from (line @ [c]) cs)"
  by (cases cs) auto

lemma insert_Nil_Cons:
  "insert [] (set A) = insert [] (set B) \<Longrightarrow> insert [] (set (x # A)) = insert [] (set (x # B))"
  by (simp add: insert_commute [of "[]" x])

lemma splitlines_from_fields:
  "insert [] (set (splitlines_from line s)) = insert [] (set (fields_from is_linebreak line s))"
proof (induction line s rule: splitlines_from.induct)
  case (1 line)
  then show ?case by auto
next
  case (2 line c)
  then show ?case by auto
next
  case (3 line c d cs)
  have LF: "is_linebreak 10" by (simp add: is_linebreak_def)
  show ?case
  proof (cases "is_linebreak c")
    case False
    with 3(3) show ?thesis by simp
  next
    case True
    show ?thesis
    proof (cases "c = 13 \<and> d = 10")
      case CRLF: True
      have l: "splitlines_from line (c # d # cs) = line # splitlines_from [] cs"
        using True CRLF by simp
      have r: "fields_from is_linebreak line (c # d # cs) = line # [] # fields_from is_linebreak [] cs"
        using True CRLF LF by simp
      have "insert [] (set (splitlines_from [] cs)) = insert [] (set (fields_from is_linebreak [] cs))"
        using 3(1) [OF True CRLF] .
      then have "insert [] (set (line # splitlines_from [] cs))
          = insert [] (set (line # fields_from is_linebreak [] cs))"
        by (rule insert_Nil_Cons)
      then show ?thesis unfolding l r by auto
    next
      case False
      have l: "splitlines_from line (c # d # cs) = line # splitlines_from [] (d # cs)"
        using True False by auto
      have r: "fields_from is_linebreak line (c # d # cs) = line # fields_from is_linebreak [] (d # cs)"
        using True by simp
      show ?thesis unfolding l r using 3(2) [OF True False] by (rule insert_Nil_Cons)
    qed
  qed
qed

lemma fields_from_dropWhile:
  "insert [] (set (fields_from P [] (dropWhile P s))) = insert [] (set (fields_from P [] s))"
  by (induction s) auto

lemma re_split_from_fields:
  "insert [] (set (re_split_from piece s)) = insert [] (set (fields_from is_revoke_sep piece s))"
proof (induction piece s rule: re_split_from.induct)
  case (1 piece)
  then show ?case by simp
next
  case (2 piece c cs)
  show ?case
  proof (cases "is_revoke_sep c")
    case True
    with 2 fields_from_dropWhile [of is_revoke_sep cs] show ?thesis by auto
  next
    case False
    with 2 show ?thesis by simp
  qed
qed

lemma split_from_single: "split_from [d] piece s = fields_from (\<lambda>c. c = d) piece s"
  by (induction s arbitrary: piece) auto

lemma split_from_nonempty: "split_from sep piece s \<noteq> []"
  by (induction sep piece s rule: split_from.induct) auto

lemma join_Cons: "ys \<noteq> [] \<Longrightarrow> join sep (x # ys) = x @ sep @ join sep ys"
  by (cases ys) auto

lemma join_split_from: "sep \<noteq> [] \<Longrightarrow> join sep (split_from sep piece s) = piece @ s"
proof (induction sep piece s rule: split_from.induct)
  case (1 sep piece)
  then show ?case by simp
next
  case (2 sep piece c cs)
  show ?case
  proof (cases "prefix sep (c # cs)")
    case True
    then obtain r where r: "c # cs = sep @ r" by (auto simp: prefix_def)
    with 2 obtain sep' where sep: "sep = c # sep'" by (cases sep) auto
    with r have d: "drop (length sep - 1) cs = r" by simp
    have "split_from sep piece (c # cs) = piece # split_from sep [] r"
      using True d by simp
    moreover have "join sep (split_from sep [] r) = r"
      using 2(1) [OF True 2(3)] d by simp
    ultimately show ?thesis using r by (simp add: join_Cons split_from_nonempty)
  next
    case False
    with 2 show ?thesis by simp
  qed
qed

lemma sublist_snoc_suffix:
  "sublist xs (ys @ [y]) \<Longrightarrow> \<not> sublist xs ys \<Longrightarrow> suffix xs (ys @ [y])"
  by (simp add: sublist_snoc)

lemma suffix_same_length:
  "suffix xs (ps @ ys) \<Longrightarrow> length ys = length xs \<Longrightarrow> ys = xs"
  by (auto simp: suffix_def)

lemma split_from_keep:
  assumes "sep \<noteq> []" "\<not> prefix sep (c # cs)"
    and "\<not> sublist sep (piece @ take (length sep - 1) (c # cs))"
  shows "\<not> sublist sep ((piece @ [c]) @ take (length sep - 1) cs)"
proof
  let ?n = "length sep - 1"
  let ?tk = "take ?n (c # cs)"
  from assms(1) have len: "length sep = Suc ?n" by (cases sep) auto
  assume A: "sublist sep ((piece @ [c]) @ take ?n cs)"
  have eq: "(piece @ [c]) @ take ?n cs = piece @ take (Suc ?n) (c # cs)" by simp
  show False
  proof (cases "?n < length (c # cs)")
    case True
    then have tk: "take (Suc ?n) (c # cs) = ?tk @ [(c # cs) ! ?n]"
      by (rule take_Suc_conv_app_nth)
    have "sublist sep ((piece @ ?tk) @ [(c # cs) ! ?n])"
      using A unfolding eq tk by simp
    then have "suffix sep ((piece @ ?tk) @ [(c # cs) ! ?n])"
      using assms(3) by (rule sublist_snoc_suffix)
    then have "suffix sep (piece @ take (Suc ?n) (c # cs))"
      unfolding tk by simp
    moreover have "length (take (Suc ?n) (c # cs)) = length sep"
      using True len by simp
    ultimately have "take (Suc ?n) (c # cs) = sep" by (rule suffix_same_length)
    then have "prefix sep (c # cs)" using take_is_prefix [of "Suc ?n" "c # cs"] by simp
    with assms(2) show False by simp
  next
    case False
    then have "take (Suc ?n) (c # cs) = ?tk" by simp
    with A assms(3) show False unfolding eq by simp
  qed
qed

lemma split_from_no_sep:
  "sep \<noteq> [] \<Longrightarrow> \<not> sublist sep (piece @ take (length sep - 1) s) \<Longrightarrow>
   \<forall>t\<in>set (split_from sep piece s). \<not> sublist sep t"
proof (induction sep piece s rule: split_from.induct)
  case (1 sep piece)
  then show ?case by simp
next
  case (2 sep piece c cs)
  let ?n = "length sep - 1"
  from 2(3) have len: "length sep = Suc ?n" by (cases sep) auto
  show ?case
  proof (cases "prefix sep (c # cs)")
    case True
    have "\<not> sublist sep piece" using 2(4) by (auto simp: sublist_append)
    moreover have "\<not> sublist sep ([] @ take ?n (drop ?n cs))"
    proof
      assume "sublist sep ([] @ take ?n (drop ?n cs))"
      then have "length sep \<le> length (take ?n (drop ?n cs))"
        using sublist_length_le by fastforce
      with len show False by simp
    qed
    ultimately show ?thesis using 2(1) [OF True 2(3)] True by simp
  next
    case False
    have "\<not> sublist sep ((piece @ [c]) @ take ?n cs)"
      using 2(3) False 2(4) by (rule split_from_keep)
    with 2(2) [OF False 2(3)] False show ?thesis by simp
  qed
qed

lemma splitlines_from_plain:
  "\<forall>c\<in>set x. \<not> is_linebreak c \<Longrightarrow> splitlines_from line (x @ r) = splitlines_from (line @ x) r"
proof (induction x arbitrary: line)
  case Nil
  then show ?case by simp
next
  case (Cons a x)
  then show ?case by (simp add: splitlines_from_Cons del: splitlines_from.simps)
qed

lemma splitlines_from_LF: "splitlines_from line (10 # r) = line # splitlines_from [] r"
  by (simp add: splitlines_from_Cons is_linebreak_def del: splitlines_from.simps)

lemma splitlines_join:
  "\<forall>x\<in>set xs. x \<noteq> [] \<and> (\<forall>c\<in>set x. \<not> is_linebreak c) \<Longrightarrow> splitlines (join NL xs) = xs"
proof (induction xs)
  case Nil
  then show ?case by (simp add: splitlines_def)
next
  case (Cons x xs)
  have plain: "splitlines_from [] (x @ r) = splitlines_from x r" for r
    using Cons.prems splitlines_from_plain [of x "[]" r] by simp
  show ?case
  proof (cases xs)
    case Nil
    with Cons.prems plain [of "[]"] show ?thesis by (simp add: splitlines_def)
  next
    case (Cons y ys)
    with Cons.IH Cons.prems plain [of "10 # join NL (y # ys)"] show ?thesis
      by (simp add: splitlines_def NL_def splitlines_from_LF del: splitlines_from.simps)
  qed
qed

lemma strip_id:
  assumes "x \<noteq> []" "\<not> isspace (hd x)" "\<not> isspace (last x)"
  shows "strip x = x"
proof -
  from assms have "dropWhile isspace x = x" by (cases x) auto
  moreover from assms have "dropWhile isspace (rev x) = rev x"
    by (cases "rev x") (auto simp: hd_rev)
  ultimately show ?thesis by (simp add: strip_def)
qed

lemma strip_spaces:
  assumes "\<forall>c\<in>set t. isspace c"
  shows "strip t = []"
proof -
  from assms have d: "dropWhile isspace t = []" by simp
  show ?thesis unfolding strip_def d by simp
qed

lemma trimmed_of_strip: "trimmed_of t x \<longleftrightarrow> x = strip t"
proof
  assume "trimmed_of t x"
  then obtain l r where t: "t = l @ x @ r" and l: "\<forall>c\<in>set l. isspace c"
    and r: "\<forall>c\<in>set r. isspace c"
    and x: "x \<noteq> [] \<longrightarrow> \<not> isspace (hd x) \<and> \<not> isspace (last x)"
    by (auto simp: trimmed_of_def)
  show "x = strip t"
  proof (cases "x = []")
    case True
    with t l r have "\<forall>c\<in>set t. isspace c" by auto
    with True show ?thesis by (simp add: strip_spaces)
  next
    case False
    with x have hd: "\<not> isspace (hd x)" and la: "\<not> isspace (last x)" by auto
    have "dropWhile isspace t = x @ r"
      using t l hd False by (cases x) (auto simp: dropWhile_append2)
    moreover have "dropWhile isspace (rev r @ rev x) = dropWhile isspace (rev x)"
      using r by (intro dropWhile_append2) auto
    moreover have "dropWhile isspace (rev x) = rev x"
      using la False by (cases "rev x") (auto simp: hd_rev)
    ultimately show ?thesis by (simp add: strip_def)
  qed
next
  assume x: "x = strip t"
  let ?d = "dropWhile isspace t"
  let ?l = "takeWhile isspace t"
  let ?r = "rev (takeWhile isspace (rev ?d))"
  have "t = ?l @ ?d" by simp
  moreover have "rev ?d = takeWhile isspace (rev ?d) @ dropWhile isspace (rev ?d)" by simp
  then have "?d = x @ ?r"
    unfolding x strip_def by (metis rev_append rev_rev_ident)
  ultimately have t: "t = ?l @ x @ ?r" by simp
  have l: "\<forall>c\<in>set ?l. isspace c" by (auto dest: set_takeWhileD)
  have r: "\<forall>c\<in>set ?r. isspace c" by (auto dest: set_takeWhileD)
  have e: "x \<noteq> [] \<longrightarrow> \<not> isspace (hd x) \<and> \<not> isspace (last x)"
  proof
    assume ne: "x \<noteq> []"
    then have dne: "dropWhile isspace (rev ?d) \<noteq> []" by (simp add: x strip_def)
    then have "\<not> isspace (hd (dropWhile isspace (rev ?d)))" by (rule hd_dropWhile)
    then have la: "\<not> isspace (last x)" using dne by (simp add: x strip_def last_rev)
    from ne have "?d \<noteq> []" unfolding x strip_def by (cases "dropWhile isspace t") auto
    then have "\<not> isspace (hd ?d)" by (rule hd_dropWhile)
    moreover have "hd ?d = hd x" using \<open>?d = x @ ?r\<close> ne by (metis hd_append2)
    ultimately show "\<not> isspace (hd x) \<and> \<not> isspace (last x)" using la by simp
  qed
  from t l r e show "trimmed_of t x" unfolding trimmed_of_def by blast
qed

lemma stripped_set_iff:
  "stripped_set raw_ips = {x. x \<noteq> [] \<and> (\<exists>t\<in>set raw_ips. trimmed_of t x)}"
  by (auto simp: stripped_set_def trimmed_of_strip)

lemma stripped_set_cong_Nil:
  "insert [] (set A) = insert [] (set B) \<Longrightarrow> stripped_set A = stripped_set B"
proof -
  assume eq: "insert [] (set A) = insert [] (set B)"
  have "strip [] = []" by (simp add: strip_def)
  then have H: "stripped_set A = (strip ` insert [] (set A)) - {[]}" for A
    by (auto simp: stripped_set_def)
  show ?thesis unfolding H [of A] H [of B] eq ..
qed

lemma stripped_set_id:
  assumes "\<forall>x\<in>set xs. x \<noteq> [] \<and> \<not> isspace (hd x) \<and> \<not> isspace (last x)"
  shows "stripped_set xs = set xs"
proof -
  have "map strip xs = xs" using assms by (simp add: map_idI strip_id)
  moreover have "filter (\<lambda>ip. ip \<noteq> []) xs = xs" using assms by (simp add: filter_id_conv)
  ultimately show ?thesis by (simp add: stripped_set_def)
qed

section \<open>Claims about parsing and reconciliation\<close>

lemma stripped_set_splitlines:
  "stripped_set (splitlines content) =
     {x. x \<noteq> [] \<and> (\<exists>t. segment is_linebreak content t \<and> trimmed_of t x)}"
proof -
  have "stripped_set (splitlines content) = stripped_set (fields_from is_linebreak [] content)"
    unfolding splitlines_def by (rule stripped_set_cong_Nil) (rule splitlines_from_fields)
  then show ?thesis by (simp add: stripped_set_iff fields_from_segment Bex_def conj_commute)
qed

text \<open>
  Claim C1. For every original address set (the parse of the uploaded text) and every
  requested set, the reconciliation computes matched = original \<inter> requested
  (\<open>potential_removals\<close>, line 268) and retained = original - matched (\<open>ips_to_keep\<close>,
  the set \<open>update_content\<close> serialises, line 164), and the two partition the original:
  retained \<union> matched = original and retained \<inter> matched = \<emptyset>. The source computes
  retained as original - requested; the theorem shows that this is original - matched.
  It holds for every requested set, validated and non-empty or not.
\<close>

theorem reconciliation_partition:
  assumes "get_ips_from_content content delimiter_value = Inr original"
  shows "update_content content requested delimiter_value
           = Inr (serialize (ips_to_keep original requested)) \<and>
         potential_removals original requested = original \<inter> requested \<and>
         ips_to_keep original requested = original - potential_removals original requested \<and>
         ips_to_keep original requested \<union> potential_removals original requested = original \<and>
         ips_to_keep original requested \<inter> potential_removals original requested = {}"
  using assms by (auto simp: update_content_def ips_to_keep_def potential_removals_def)

lemma parse_three_lines:
  "get_ips_from_content (ascii ''1.1.1.1'' @ NL @ ascii ''2.2.2.2'' @ NL @ ascii ''3.3.3.3'') NL
     = Inr {ascii ''1.1.1.1'', ascii ''2.2.2.2'', ascii ''3.3.3.3''}"
  by (simp add: get_ips_from_content_def splitlines_def is_linebreak_def ascii_def NL_def
        stripped_set_def strip_def isspace_def)

theorem reconciliation_partition_witness:
  "get_ips_from_content (ascii ''1.1.1.1'' @ NL @ ascii ''2.2.2.2'' @ NL @ ascii ''3.3.3.3'') NL
     = Inr {ascii ''1.1.1.1'', ascii ''2.2.2.2'', ascii ''3.3.3.3''} \<and>
   update_content (ascii ''1.1.1.1'' @ NL @ ascii ''2.2.2.2'' @ NL @ ascii ''3.3.3.3'')
       {ascii ''2.2.2.2'', ascii ''9.9.9.9''} NL
     = Inr (serialize (ips_to_keep {ascii ''1.1.1.1'', ascii ''2.2.2.2'', ascii ''3.3.3.3''}
                          {ascii ''2.2.2.2'', ascii ''9.9.9.9''})) \<and>
   ips_to_keep {ascii ''1.1.1.1'', ascii ''2.2.2.2'', ascii ''3.3.3.3''}
       {ascii ''2.2.2.2'', ascii ''9.9.9.9''}
     \<union> potential_removals {ascii ''1.1.1.1'', ascii ''2.2.2.2'', ascii ''3.3.3.3''}
         {ascii ''2.2.2.2'', ascii ''9.9.9.9''}
     = {ascii ''1.1.1.1'', ascii ''2.2.2.2'', ascii ''3.3.3.3''}"
  using reconciliation_partition [OF parse_three_lines, of "{ascii ''2.2.2.2'', ascii ''9.9.9.9''}"]
    parse_three_lines
  by blast

text \<open>
  The scenario of the specification: original \<open>{1.1.1.1, 2.2.2.2, 3.3.3.3}\<close> and request
  \<open>{2.2.2.2, 9.9.9.9}\<close> give the text \<open>"1.1.1.1\n3.3.3.3"\<close>.
\<close>

lemma update_content_scenario:
  "update_content (ascii ''1.1.1.1'' @ NL @ ascii ''2.2.2.2'' @ NL @ ascii ''3.3.3.3'')
       {ascii ''2.2.2.2'', ascii ''9.9.9.9''} NL
     = Inr (ascii ''1.1.1.1'' @ NL @ ascii ''3.3.3.3'')"
  using reconciliation_partition [OF parse_three_lines, of "{ascii ''2.2.2.2'', ascii ''9.9.9.9''}"]
  by (simp add: ips_to_keep_def potential_removals_def serialize_def ascii_def NL_def
        insert_Diff_if)

text \<open>
  Claim C7. For every content string and every delimiter that \<open>str.split\<close> accepts (any
  string but the empty one, for which Python raises \<open>ValueError\<close>; the page only passes
  newline, comma, space and tab), \<open>get_ips_from_content\<close> returns a set that meets
  \<open>parse_spec\<close>: for the newline delimiter its elements are the trimmed, non-empty forms
  of the stretches of the content between line boundaries; for any other delimiter they
  are the trimmed, non-empty forms of tokens that, joined by the delimiter, give the
  content back and none of which contains the delimiter. The result is a set, so
  duplicates collapse.
\<close>

theorem get_ips_from_content_parse:
  assumes "delimiter_value \<noteq> []"
  shows "\<exists>result. get_ips_from_content content delimiter_value = Inr result \<and>
           parse_spec content delimiter_value result"
proof (cases "delimiter_value = NL")
  case True
  then show ?thesis
    by (simp add: get_ips_from_content_def parse_spec_def stripped_set_splitlines)
next
  case False
  let ?tokens = "split_from delimiter_value [] content"
  have "join delimiter_value ?tokens = content"
    using assms join_split_from [of delimiter_value "[]" content] by simp
  moreover have "\<not> sublist delimiter_value ([] @ take (length delimiter_value - 1) content)"
  proof
    assume "sublist delimiter_value ([] @ take (length delimiter_value - 1) content)"
    then have "length delimiter_value \<le> length (take (length delimiter_value - 1) content)"
      using sublist_length_le by fastforce
    with assms show False by (cases delimiter_value) auto
  qed
  then have "\<forall>t\<in>set ?tokens. \<not> sublist delimiter_value t"
    using assms by (intro split_from_no_sep)
  ultimately have "parse_spec content delimiter_value (stripped_set ?tokens)"
    using False unfolding parse_spec_def stripped_set_iff by auto
  moreover have "get_ips_from_content content delimiter_value = Inr (stripped_set ?tokens)"
    using False assms by (simp add: get_ips_from_content_def split_def)
  ultimately show ?thesis by blast
qed

theorem get_ips_from_content_parse_witness:
  "[44] \<noteq> ([] :: pystr) \<and>
   (\<exists>result. get_ips_from_content (ascii '' 10.0.0.1 ,10.0.0.1'') [44] = Inr result \<and>
      parse_spec (ascii '' 10.0.0.1 ,10.0.0.1'') [44] result)"
  using get_ips_from_content_parse [of "[44]" "ascii '' 10.0.0.1 ,10.0.0.1''"] by simp

text \<open>
  The scenario of the specification: the request \<open>" 10.0.0.1 ,10.0.0.1"\<close> split on the
  comma normalises to \<open>{10.0.0.1}\<close>.
\<close>

lemma parse_padded_duplicate:
  "get_ips_from_content (ascii '' 10.0.0.1 ,10.0.0.1'') [44] = Inr {ascii ''10.0.0.1''}"
  by (simp add: get_ips_from_content_def split_def ascii_def NL_def stripped_set_def strip_def
        isspace_def)

text \<open>
  Claim C3, as stated, fails: an address set may hold an element with a line boundary
  inside. The uploaded text \<open>"1.1.1.1\n2.2.2.2"\<close> parsed with the comma delimiter is the
  set of one normalised element (non-empty, no surrounding whitespace); serialised and
  parsed again with the newline delimiter it is the set of two elements.
\<close>

theorem serialize_roundtrip_counterexample:
  "get_ips_from_content (ascii ''1.1.1.1'' @ NL @ ascii ''2.2.2.2'') [44]
     = Inr {ascii ''1.1.1.1'' @ NL @ ascii ''2.2.2.2''} \<and>
   normalized (ascii ''1.1.1.1'' @ NL @ ascii ''2.2.2.2'') \<and>
   strip (ascii ''1.1.1.1'' @ NL @ ascii ''2.2.2.2'') = ascii ''1.1.1.1'' @ NL @ ascii ''2.2.2.2'' \<and>
   get_ips_from_content (serialize {ascii ''1.1.1.1'' @ NL @ ascii ''2.2.2.2''}) NL
     = Inr {ascii ''1.1.1.1'', ascii ''2.2.2.2''} \<and>
   get_ips_from_content (serialize {ascii ''1.1.1.1'' @ NL @ ascii ''2.2.2.2''}) NL
     \<noteq> Inr {ascii ''1.1.1.1'' @ NL @ ascii ''2.2.2.2''}"
  by (simp add: get_ips_from_content_def split_def serialize_def splitlines_def is_linebreak_def
        ascii_def NL_def stripped_set_def strip_def isspace_def normalized_def)

lemma serialize_parse_id:
  assumes "finite S" "\<forall>x\<in>S. normalized x \<and> (\<forall>c\<in>set x. \<not> is_linebreak c)"
  shows "get_ips_from_content (serialize S) NL = Inr S"
proof -
  let ?xs = "sorted_list_of_set S"
  have set: "set ?xs = S" using assms(1) by simp
  have "splitlines (join NL ?xs) = ?xs"
    using assms(2) set by (intro splitlines_join) (auto simp: normalized_def)
  moreover have "stripped_set ?xs = set ?xs"
    using assms(2) set by (intro stripped_set_id) (auto simp: normalized_def)
  ultimately show ?thesis using set by (simp add: get_ips_from_content_def serialize_def)
qed

text \<open>
  Claim C3, amended. For every finite address set whose elements are normalised
  (non-empty, no whitespace at either end) and contain no line boundary, serialising
  (sort, join with newline) and parsing the result with the newline delimiter gives the
  same set back.
\<close>

theorem serialize_roundtrip:
  assumes "finite S" "\<forall>x\<in>S. normalized x \<and> (\<forall>c\<in>set x. \<not> is_linebreak c)"
  shows "get_ips_from_content (serialize S) NL = Inr S"
  using assms by (rule serialize_parse_id)

theorem serialize_roundtrip_witness:
  "finite {ascii ''1.1.1.1'', ascii ''3.3.3.3''} \<and>
   normalized (ascii ''1.1.1.1'') \<and> normalized (ascii ''3.3.3.3'') \<and>
   list_all (\<lambda>c. \<not> is_linebreak c) (ascii ''1.1.1.1'') \<and>
   list_all (\<lambda>c. \<not> is_linebreak c) (ascii ''3.3.3.3'') \<and>
   get_ips_from_content (serialize {ascii ''1.1.1.1'', ascii ''3.3.3.3''}) NL
     = Inr {ascii ''1.1.1.1'', ascii ''3.3.3.3''}"
proof -
  have h: "\<forall>x\<in>{ascii ''1.1.1.1'', ascii ''3.3.3.3''}. normalized x \<and> (\<forall>c\<in>set x. \<not> is_linebreak c)"
    by (simp add: normalized_def ascii_def isspace_def is_linebreak_def)
  show ?thesis using h serialize_roundtrip [OF _ h] by (simp add: list_all_iff)
qed

section \<open>Claims about the audit ledger\<close>

lemma fold_max_ge: "a \<le> fold max xs (a::nat)"
  by (induction xs arbitrary: a) (auto intro: order_trans [OF max.cobounded2])

lemma fold_max_mem: "x \<in> set xs \<Longrightarrow> x \<le> fold max xs (a::nat)"
proof (induction xs arbitrary: a)
  case Nil
  then show ?case by simp
next
  case (Cons y ys)
  show ?case
  proof (cases "x = y")
    case True
    have "max y a \<le> fold max ys (max y a)" by (rule fold_max_ge)
    with True show ?thesis by simp
  next
    case False
    with Cons show ?thesis by simp
  qed
qed

lemma next_id_greater: "e \<in> set (audit_events db) \<Longrightarrow> event_id e < next_id db"
  unfolding next_id_def using fold_max_mem [of "event_id e" "map event_id (audit_events db)"]
  by (simp add: less_Suc_eq_le)

lemma log_audit_event_appends:
  assumes "log_audit_event ok now user target revoked db = Inr db'"
  shows "\<exists>e. audit_events db' = audit_events db @ [e] \<and> event_id e = next_id db \<and>
             drop_id e = logged (now, user, target, revoked)"
  using assms by (auto simp: log_audit_event_def drop_id_def split: if_splits)

lemma log_audit_event_sorted:
  assumes "log_audit_event ok now user target revoked db = Inr db'"
    and "sorted_wrt (<) (map event_id (audit_events db))"
  shows "sorted_wrt (<) (map event_id (audit_events db'))"
proof -
  from log_audit_event_appends [OF assms(1)] obtain e where
    e: "audit_events db' = audit_events db @ [e]" "event_id e = next_id db" by blast
  with assms(2) show ?thesis by (auto simp: sorted_wrt_append next_id_greater)
qed

lemma log_all_appends:
  "log_all calls db = Inr db' \<Longrightarrow>
     map drop_id (audit_events db') = map drop_id (audit_events db) @ map logged calls"
proof (induction calls arbitrary: db)
  case Nil
  then show ?case by simp
next
  case (Cons call calls)
  obtain now user target revoked where call: "call = (now, user, target, revoked)"
    by (cases call) auto
  from Cons.prems obtain db1 where
    first: "log_audit_event True now user target revoked db = Inr db1"
    and rest: "log_all calls db1 = Inr db'"
    by (auto simp: call split: sum.splits)
  from log_audit_event_appends [OF first] obtain e where
    "audit_events db1 = audit_events db @ [e]" "drop_id e = logged call"
    unfolding call by blast
  with Cons.IH [OF rest] show ?case by simp
qed

lemma log_all_sorted:
  "log_all calls db = Inr db' \<Longrightarrow> sorted_wrt (<) (map event_id (audit_events db)) \<Longrightarrow>
     sorted_wrt (<) (map event_id (audit_events db'))"
proof (induction calls arbitrary: db)
  case Nil
  then show ?case by simp
next
  case (Cons call calls)
  obtain now user target revoked where call: "call = (now, user, target, revoked)"
    by (cases call) auto
  from Cons.prems(1) obtain db1 where
    first: "log_audit_event True now user target revoked db = Inr db1"
    and rest: "log_all calls db1 = Inr db'"
    by (auto simp: call split: sum.splits)
  from log_audit_event_sorted [OF first Cons.prems(2)] Cons.IH [OF rest] show ?case by blast
qed

lemma timestamp_drop_id: "fst (drop_id e) = timestamp e"
  by (simp add: drop_id_def)

lemma load_audit_logs_rows:
  "load_audit_logs True db = Inr (map drop_id (order_by_timestamp_desc (audit_events db)))"
  by (simp add: load_audit_logs_def)

lemma insort_key_last: "\<forall>y\<in>set ys. f y < f x \<Longrightarrow> insort_key f x ys = ys @ [x]"
  by (induction ys) auto

lemma sort_key_rev_strict:
  "sorted_wrt (<) (map f xs) \<Longrightarrow> sort_key f (rev xs) = xs"
proof (induction xs rule: rev_induct)
  case Nil
  then show ?case by simp
next
  case (snoc x xs)
  then have s: "sorted_wrt (<) (map f xs)" and l: "\<forall>y\<in>set xs. f y < f x"
    by (auto simp: sorted_wrt_append)
  have "sort_key f (rev (xs @ [x])) = insort_key f x (sort_key f (rev xs))" by simp
  also have "\<dots> = insort_key f x xs" using snoc.IH [OF s] by simp
  also have "\<dots> = xs @ [x]" using l by (rule insort_key_last)
  finally show ?case .
qed

text \<open>Rows with equal timestamps are returned in the order of their insertion.\<close>

lemma order_by_timestamp_desc_ties:
  "map event_id (order_by_timestamp_desc
     [\<lparr>event_id = 1, timestamp = [49], action = [], user_id = None, target_file = [], ips_revoked = 0\<rparr>,
      \<lparr>event_id = 2, timestamp = [50], action = [], user_id = None, target_file = [], ips_revoked = 0\<rparr>,
      \<lparr>event_id = 3, timestamp = [50], action = [], user_id = None, target_file = [], ips_revoked = 0\<rparr>,
      \<lparr>event_id = 4, timestamp = [51], action = [], user_id = None, target_file = [], ips_revoked = 0\<rparr>])
   = [4, 2, 3, 1]"
  by (simp add: order_by_timestamp_desc_def)

text \<open>
  Claim C4. After N successful calls of \<open>log_audit_event\<close> on a fresh store,
  \<open>load_audit_logs\<close> returns exactly N rows, ordered by timestamp descending; they are the
  rows of the N calls (as a multiset, and in reverse call order, newest first, when the
  clock readings of the calls increase strictly); the stored events are those of the calls
  in call order, and their ids increase strictly in that order, so each appended event's
  id is greater than the ids of all events appended before it. (\<open>load_audit_logs\<close> drops
  the id column, lines 66-67, so the ids are read from the table.)
\<close>

theorem ledger_monotonic:
  assumes "log_all calls (init_db None) = Inr db"
  shows "\<exists>rows. load_audit_logs True db = Inr rows \<and>
           length rows = length calls \<and>
           sorted_wrt (\<ge>) (map fst rows) \<and>
           mset rows = mset (map logged calls) \<and>
           (sorted_wrt (<) (map fst calls) \<longrightarrow> rows = rev (map logged calls)) \<and>
           map drop_id (audit_events db) = map logged calls \<and>
           sorted_wrt (<) (map event_id (audit_events db))"
proof -
  let ?evs = "audit_events db"
  let ?rows = "map drop_id (order_by_timestamp_desc ?evs)"
  have stored: "map drop_id ?evs = map logged calls"
    using log_all_appends [OF assms] by (simp add: init_db_def)
  have ids: "sorted_wrt (<) (map event_id ?evs)"
    using log_all_sorted [OF assms] by (simp add: init_db_def)
  have "length ?rows = length (map drop_id ?evs)"
    by (simp add: order_by_timestamp_desc_def)
  then have len: "length ?rows = length calls" using stored by simp
  have "map fst ?rows = rev (map timestamp (sort_key timestamp (rev ?evs)))"
    by (simp add: order_by_timestamp_desc_def rev_map timestamp_drop_id comp_def)
  moreover have "sorted (map timestamp (sort_key timestamp (rev ?evs)))"
    by (rule sorted_sort_key)
  ultimately have desc: "sorted_wrt (\<ge>) (map fst ?rows)"
    by (simp add: sorted_wrt_rev)
  have "mset ?rows = image_mset drop_id (mset ?evs)"
    by (simp add: order_by_timestamp_desc_def)
  also have "\<dots> = mset (map drop_id ?evs)" by simp
  finally have perm: "mset ?rows = mset (map logged calls)" using stored by simp
  have newest: "sorted_wrt (<) (map fst calls) \<longrightarrow> ?rows = rev (map logged calls)"
  proof
    assume a: "sorted_wrt (<) (map fst calls)"
    have "map fst (map logged calls) = map fst calls" by (induction calls) auto
    moreover have "map timestamp ?evs = map fst (map drop_id ?evs)"
      by (simp add: timestamp_drop_id comp_def)
    ultimately have "map timestamp ?evs = map fst calls"
      unfolding stored by (simp only:)
    with a have "sorted_wrt (<) (map timestamp ?evs)" by (simp only:)
    then have "sort_key timestamp (rev ?evs) = ?evs" by (rule sort_key_rev_strict)
    then have "?rows = rev (map drop_id ?evs)"
      by (simp add: order_by_timestamp_desc_def rev_map)
    with stored show "?rows = rev (map logged calls)" by simp
  qed
  from len desc perm newest stored ids load_audit_logs_rows [of db] show ?thesis by blast
qed

theorem ledger_monotonic_witness:
  "log_all [(ascii ''2025-01-01T10:00:00'', Some (ascii ''admin_default''), ascii ''a.txt'', 1),
            (ascii ''2025-01-01T10:00:07.25'', Some (ascii ''admin_default''), ascii ''b.txt'', 0)]
       (init_db None)
     = Inr \<lparr>audit_events =
              [\<lparr>event_id = 1, timestamp = ascii ''2025-01-01T10:00:00'',
                action = ascii ''Access Revocation Audit'', user_id = Some (ascii ''admin_default''),
                target_file = ascii ''a.txt'', ips_revoked = 1\<rparr>,
               \<lparr>event_id = 2, timestamp = ascii ''2025-01-01T10:00:07.25'',
                action = ascii ''Access Revocation Audit'', user_id = Some (ascii ''admin_default''),
                target_file = ascii ''b.txt'', ips_revoked = 0\<rparr>],
            sqlite_sequence = 2\<rparr> \<and>
   load_audit_logs True
       \<lparr>audit_events =
              [\<lparr>event_id = 1, timestamp = ascii ''2025-01-01T10:00:00'',
                action = ascii ''Access Revocation Audit'', user_id = Some (ascii ''admin_default''),
                target_file = ascii ''a.txt'', ips_revoked = 1\<rparr>,
               \<lparr>event_id = 2, timestamp = ascii ''2025-01-01T10:00:07.25'',
                action = ascii ''Access Revocation Audit'', user_id = Some (ascii ''admin_default''),
                target_file = ascii ''b.txt'', ips_revoked = 0\<rparr>],
            sqlite_sequence = 2\<rparr>
     = Inr [(ascii ''2025-01-01T10:00:07.25'', ascii ''Access Revocation Audit'',
             Some (ascii ''admin_default''), ascii ''b.txt'', 0),
            (ascii ''2025-01-01T10:00:00'', ascii ''Access Revocation Audit'',
             Some (ascii ''admin_default''), ascii ''a.txt'', 1)]"
proof -
  let ?calls = "[(ascii ''2025-01-01T10:00:00'', Some (ascii ''admin_default''), ascii ''a.txt'', 1),
            (ascii ''2025-01-01T10:00:07.25'', Some (ascii ''admin_default''), ascii ''b.txt'', 0)]"
  let ?db = "\<lparr>audit_events =
              [\<lparr>event_id = 1, timestamp = ascii ''2025-01-01T10:00:00'',
                action = ascii ''Access Revocation Audit'', user_id = Some (ascii ''admin_default''),
                target_file = ascii ''a.txt'', ips_revoked = 1\<rparr>,
               \<lparr>event_id = 2, timestamp = ascii ''2025-01-01T10:00:07.25'',
                action = ascii ''Access Revocation Audit'', user_id = Some (ascii ''admin_default''),
                target_file = ascii ''b.txt'', ips_revoked = 0\<rparr>],
            sqlite_sequence = 2\<rparr>"
  have h: "log_all ?calls (init_db None) = Inr ?db"
    by (simp add: init_db_def log_audit_event_def next_id_def MAX_ROWID_def)
  have s: "sorted_wrt (<) (map fst ?calls)" by (simp add: ascii_def)
  from ledger_monotonic [OF h] s obtain rows where
    "load_audit_logs True ?db = Inr rows" "rows = rev (map logged ?calls)"
    by blast
  with h show ?thesis by simp
qed

text \<open>Appends succeed as long as the ids stay within the range of a ROWID.\<close>

lemma fold_max_snoc:
  "\<forall>x\<in>set xs. x \<le> n \<Longrightarrow> a \<le> n \<Longrightarrow> fold max (xs @ [n]) a = (n::nat)"
  by (induction xs arbitrary: a) auto

lemma next_id_after_append:
  assumes "log_audit_event ok now user target revoked db = Inr db'"
  shows "next_id db' = Suc (next_id db)"
proof -
  from assms have ev: "map event_id (audit_events db') = map event_id (audit_events db) @ [next_id db]"
    and sq: "sqlite_sequence db' = next_id db"
    by (auto simp: log_audit_event_def split: if_splits)
  have "\<forall>x\<in>set (map event_id (audit_events db)). x \<le> next_id db"
    using next_id_greater [of _ db] by (auto intro: less_imp_le)
  then have "fold max (map event_id (audit_events db) @ [next_id db]) (next_id db) = next_id db"
    by (rule fold_max_snoc) simp
  then show ?thesis unfolding next_id_def [of db'] ev sq by simp
qed

lemma log_all_succeeds:
  "next_id db + length calls \<le> Suc MAX_ROWID \<Longrightarrow> \<exists>db'. log_all calls db = Inr db'"
proof (induction calls arbitrary: db)
  case Nil
  then show ?case by simp
next
  case (Cons call calls)
  obtain now user target revoked where call: "call = (now, user, target, revoked)"
    by (cases call) auto
  from Cons.prems have "\<not> next_id db > MAX_ROWID" by simp
  then obtain db1 where first: "log_audit_event True now user target revoked db = Inr db1"
    by (simp add: log_audit_event_def)
  from next_id_after_append [OF first] Cons.prems
  have "next_id db1 + length calls \<le> Suc MAX_ROWID" by simp
  from Cons.IH [OF this] first show ?case by (simp add: call)
qed

section \<open>Claims about the page script\<close>

lemma parse_octet_raises: "parse_octet s = Inl e \<Longrightarrow> e = ValueError"
  by (auto simp: parse_octet_def py_int_def split: if_splits sum.splits)

lemma map_raising_raises:
  "(\<And>x e. f x = Inl e \<Longrightarrow> e = err) \<Longrightarrow> map_raising f xs = Inl e \<Longrightarrow> e = err"
  by (induction xs arbitrary: e) (auto split: sum.splits)

lemma v4_ip_int_from_string_raises: "v4_ip_int_from_string s = Inl e \<Longrightarrow> e = AddressValueError"
proof -
  assume a: "v4_ip_int_from_string s = Inl e"
  have m: "map_raising parse_octet xs = Inl e' \<Longrightarrow> e' = ValueError" for xs e'
    using map_raising_raises [of parse_octet ValueError xs e'] parse_octet_raises by blast
  have f: "from_bytes bs = Inl e' \<Longrightarrow> e' = ValueError" for bs e'
    by (auto simp: from_bytes_def split: if_splits)
  from a show ?thesis
    by (auto simp: v4_ip_int_from_string_def split_def split: if_splits sum.splits dest: m f)
qed

lemma IPv4Address_raises: "IPv4Address s = Inl e \<Longrightarrow> e = AddressValueError"
  by (auto simp: IPv4Address_def split: if_splits dest: v4_ip_int_from_string_raises)

lemma parse_hextet_raises: "parse_hextet s = Inl e \<Longrightarrow> e = ValueError"
  by (auto simp: parse_hextet_def py_int_def split: if_splits)

lemma parse_hextets_raises: "parse_hextets n ps = Inl e \<Longrightarrow> e = ValueError"
  by (induction ps arbitrary: n) (auto split: sum.splits dest: parse_hextet_raises)

lemma hextets_to_int_raises: "hextets_to_int ps hi lo sk = Inl e \<Longrightarrow> e = AddressValueError"
  by (auto simp: hextets_to_int_def split: sum.splits if_splits dest: parse_hextets_raises)

lemma find_skip_index_raises: "find_skip_index ps is sk = Inl e \<Longrightarrow> e = AddressValueError"
  by (induction "is" arbitrary: sk) (auto split: if_splits)

lemma ipv4_suffix_raises: "ipv4_suffix ps = Inl e \<Longrightarrow> e = AddressValueError"
  by (auto simp: ipv4_suffix_def split: if_splits sum.splits dest: IPv4Address_raises)

lemma v6_ip_int_from_string_raises: "v6_ip_int_from_string s = Inl e \<Longrightarrow> e = AddressValueError"
  by (auto simp: v6_ip_int_from_string_def split_def Let_def
        split: if_splits sum.splits option.splits
        dest: ipv4_suffix_raises find_skip_index_raises hextets_to_int_raises)

lemma split_scope_id_raises: "split_scope_id s = Inl e \<Longrightarrow> e = AddressValueError"
  by (auto simp: split_scope_id_def Let_def split: list.splits if_splits)

lemma IPv6Address_raises: "IPv6Address s = Inl e \<Longrightarrow> e = AddressValueError"
  by (auto simp: IPv6Address_def split: if_splits sum.splits prod.splits
        dest: split_scope_id_raises v6_ip_int_from_string_raises)

lemma ip_address_raises: "ip_address s = Inl e \<Longrightarrow> e = ValueError"
  by (auto simp: ip_address_def caught_address_error_def split: sum.splits if_splits prod.splits
        dest: IPv4Address_raises IPv6Address_raises)

lemma is_valid_ip_total: "\<exists>b. is_valid_ip s = Inr b"
  by (cases "ip_address s") (auto simp: is_valid_ip_def dest: ip_address_raises)

lemma invalid_ips_filter:
  "invalid_ips ips = Inr (filter (\<lambda>ip. is_valid_ip ip = Inr False) ips)"
proof (induction ips)
  case Nil
  then show ?case by simp
next
  case (Cons ip ips)
  from is_valid_ip_total [of ip] obtain b where "is_valid_ip ip = Inr b" ..
  with Cons show ?case by (cases b) auto
qed

lemma delimiter_values_nonempty: "delimiter_values d \<noteq> []"
  by (cases d) (auto simp: NL_def)

lemma get_ips_from_content_returns:
  "delimiter_value \<noteq> [] \<Longrightarrow>
     \<exists>S. get_ips_from_content content delimiter_value = Inr S \<and> finite S"
  by (auto simp: get_ips_from_content_def split_def stripped_set_def)

lemma remove_list_clean_finite: "finite (remove_list_clean s)"
  by (simp add: remove_list_clean_def stripped_set_def)

lemma script_request:
  assumes "uploaded_file w = Some (name, content)" "remove_input w \<noteq> []"
  shows "\<exists>original. get_ips_from_content content (delimiter_values (delimiter_name w)) = Inr original \<and>
     script env w ss file =
       (let db = init_db file; requested = remove_list_clean (remove_input w);
            invalid = filter (\<lambda>ip. is_valid_ip ip = Inr False) (set_order env requested);
            removals = potential_removals original requested;
            audit = audit_notice original requested
        in if requested = {} then finish Stopped [Error_empty] (ss\<lparr>success := False\<rparr>) db
           else if invalid \<noteq> [] then
             finish Stopped [Error_validation invalid] (ss\<lparr>success := False\<rparr>) db
           else if \<not> button w then downloads_and_history env [audit] ss db
           else (case revoke_action env (lang_selection w) name content
                        (delimiter_values (delimiter_name w)) requested removals ss db of
                   Inl e \<Rightarrow> finish (Uncaught e) [audit] ss db
                 | Inr (ss', db') \<Rightarrow> finish Rerun [audit] ss' db'))"
proof -
  from get_ips_from_content_returns [OF delimiter_values_nonempty, of content "delimiter_name w"]
  obtain original where
    o: "get_ips_from_content content (delimiter_values (delimiter_name w)) = Inr original"
    by blast
  show ?thesis
    using assms o by (simp add: script_def Let_def invalid_ips_filter)
qed

lemma downloads_and_history_ending: "ending (downloads_and_history env ns ss db) \<noteq> Rerun"
  by (auto simp: downloads_and_history_def finish_def split: option.splits)

lemma interaction_no_rerun: "ending (script env w ss file) \<noteq> Rerun \<Longrightarrow>
    interaction env w ss file = script env w ss file"
  by (simp add: interaction_def Let_def)

lemma revoke_action_result:
  assumes "get_ips_from_content content d = Inr original"
  shows "\<exists>reparsed.
     get_ips_from_content (serialize (ips_to_keep original requested)) NL = Inr reparsed \<and>
     revoke_action env language name content d requested removals ss db =
       (case log_audit_event (store_writable env) (ledger_clock env)
               (Some (ascii ''admin_default'')) name (card removals) db of
          Inl e \<Rightarrow> Inl e
        | Inr db' \<Rightarrow>
            Inr (ss\<lparr>updated_content_txt := Some (serialize (ips_to_keep original requested)),
                    pdf_report := Some (generate_pdf_report original removals reparsed language
                                          (report_clock env)),
                    file_name_base := Some (replace name (ascii ''.txt'') []),
                    success := True\<rparr>, db'))"
proof -
  obtain reparsed where
    re: "get_ips_from_content (serialize (ips_to_keep original requested)) NL = Inr reparsed"
    using get_ips_from_content_returns [of NL] by (auto simp: NL_def)
  have "update_content content requested d = Inr (serialize (ips_to_keep original requested))"
    using assms by (simp add: update_content_def)
  with assms re show ?thesis by (auto simp: revoke_action_def Let_def)
qed

lemma script_confirm:
  assumes "uploaded_file w = Some (name, content)" "remove_input w \<noteq> []"
    and "remove_list_clean (remove_input w) \<noteq> {}"
    and "enumerates (set_order env) (remove_list_clean (remove_input w))"
    and "\<forall>ip\<in>remove_list_clean (remove_input w). is_valid_ip ip = Inr True"
    and "get_ips_from_content content (delimiter_values (delimiter_name w)) = Inr original"
  shows "script env w ss file =
     (let requested = remove_list_clean (remove_input w);
          removals = potential_removals original requested;
          audit = audit_notice original requested
      in if \<not> button w then downloads_and_history env [audit] ss (init_db file)
         else (case revoke_action env (lang_selection w) name content
                      (delimiter_values (delimiter_name w)) requested removals ss (init_db file) of
                 Inl e \<Rightarrow> finish (Uncaught e) [audit] ss (init_db file)
               | Inr (ss', db') \<Rightarrow> finish Rerun [audit] ss' db'))"
proof -
  let ?requested = "remove_list_clean (remove_input w)"
  from assms(4) have "set (set_order env ?requested) = ?requested" by (simp add: enumerates_def)
  with assms(5) have inv: "filter (\<lambda>ip. is_valid_ip ip = Inr False) (set_order env ?requested) = []"
    by (auto simp: filter_empty_conv)
  from script_request [OF assms(1,2), of env ss "file"] assms(3,6) inv
  show ?thesis by (auto simp: Let_def)
qed

lemma interaction_append_raises:
  assumes "uploaded_file w = Some (name, content)" "remove_input w \<noteq> []"
    and "remove_list_clean (remove_input w) \<noteq> {}"
    and "enumerates (set_order env) (remove_list_clean (remove_input w))"
    and "\<forall>ip\<in>remove_list_clean (remove_input w). is_valid_ip ip = Inr True"
    and "get_ips_from_content content (delimiter_values (delimiter_name w)) = Inr original"
    and "button w"
    and "log_audit_event (store_writable env) (ledger_clock env) (Some (ascii ''admin_default''))
           name (card (potential_removals original (remove_list_clean (remove_input w))))
           (init_db file) = Inl e"
  shows "interaction env w ss file =
           \<lparr>ending = Uncaught e,
            notices = [audit_notice original (remove_list_clean (remove_input w))],
            offered = None, history = None, session = ss, store = init_db file\<rparr>"
proof -
  let ?requested = "remove_list_clean (remove_input w)"
  let ?d = "delimiter_values (delimiter_name w)"
  from revoke_action_result [OF assms(6), of ?requested env "lang_selection w" name
      "potential_removals original ?requested" ss "init_db file"] assms(8)
  have "revoke_action env (lang_selection w) name content ?d ?requested
          (potential_removals original ?requested) ss (init_db file) = Inl e"
    by auto
  with script_confirm [OF assms(1-6), of ss "file"] assms(7)
  have "script env w ss file =
          finish (Uncaught e) [audit_notice original ?requested] ss (init_db file)"
    by (simp add: Let_def)
  then show ?thesis by (simp add: interaction_def finish_def)
qed

lemma interaction_confirmed:
  assumes "uploaded_file w = Some (name, content)" "remove_input w \<noteq> []"
    and "remove_list_clean (remove_input w) \<noteq> {}"
    and "enumerates (set_order env) (remove_list_clean (remove_input w))"
    and "\<forall>ip\<in>remove_list_clean (remove_input w). is_valid_ip ip = Inr True"
    and "get_ips_from_content content (delimiter_values (delimiter_name w)) = Inr original"
    and "button w"
    and "log_audit_event (store_writable env) (ledger_clock env) (Some (ascii ''admin_default''))
           name (card (potential_removals original (remove_list_clean (remove_input w))))
           (init_db file) = Inr db'"
  shows "\<exists>reparsed.
     get_ips_from_content
       (serialize (ips_to_keep original (remove_list_clean (remove_input w)))) NL = Inr reparsed \<and>
     interaction env w ss file =
       (let requested = remove_list_clean (remove_input w);
            removals = potential_removals original requested;
            audit = audit_notice original requested;
            txt = serialize (ips_to_keep original requested);
            pdf = generate_pdf_report original removals reparsed (lang_selection w)
                    (report_clock env);
            base = replace name (ascii ''.txt'') []
        in \<lparr>ending = Completed, notices = [audit, Success_notice],
            offered = Some \<lparr>txt_data = txt, txt_file_name = base @ ascii ''_updated.txt'',
                            pdf_data = pdf, pdf_file_name = base @ ascii ''_Audit_Report.pdf''\<rparr>,
            history = Some (load_audit_logs (store_readable env) db'),
            session = ss\<lparr>updated_content_txt := Some txt, pdf_report := Some pdf,
                         file_name_base := Some base, success := True\<rparr>,
            store = db'\<rparr>)"
proof -
  let ?requested = "remove_list_clean (remove_input w)"
  let ?d = "delimiter_values (delimiter_name w)"
  let ?removals = "potential_removals original ?requested"
  let ?audit = "audit_notice original ?requested"
  from revoke_action_result [OF assms(6), of ?requested env "lang_selection w" name
      ?removals ss "init_db file"] assms(8)
  obtain reparsed where
    re: "get_ips_from_content (serialize (ips_to_keep original ?requested)) NL = Inr reparsed"
    and act: "revoke_action env (lang_selection w) name content ?d ?requested ?removals ss
                (init_db file) =
              Inr (ss\<lparr>updated_content_txt := Some (serialize (ips_to_keep original ?requested)),
                      pdf_report := Some (generate_pdf_report original ?removals reparsed
                                            (lang_selection w) (report_clock env)),
                      file_name_base := Some (replace name (ascii ''.txt'') []),
                      success := True\<rparr>, db')"
    by auto
  let ?ss' = "ss\<lparr>updated_content_txt := Some (serialize (ips_to_keep original ?requested)),
                      pdf_report := Some (generate_pdf_report original ?removals reparsed
                                            (lang_selection w) (report_clock env)),
                      file_name_base := Some (replace name (ascii ''.txt'') []),
                      success := True\<rparr>"
  have first: "script env w ss file = finish Rerun [?audit] ?ss' db'"
    using script_confirm [OF assms(1-6), of ss "file"] assms(7) act by (simp add: Let_def)
  let ?w' = "w\<lparr>button := False\<rparr>"
  have second: "script env ?w' ?ss' (Some db') = downloads_and_history env [?audit] ?ss' db'"
    using script_confirm [of ?w' name content env original ?ss' "Some db'"] assms(1-6)
    by (simp add: Let_def init_db_def)
  have "interaction env w ss file = downloads_and_history env [?audit] ?ss' db'"
    using first second by (simp add: interaction_def finish_def Let_def)
  with re show ?thesis
    by (auto simp: downloads_and_history_def Let_def)
qed

lemma enumerates_sorted: "finite S \<Longrightarrow> enumerates sorted_list_of_set S"
  by (simp add: enumerates_def)

lemmas string_eval = ascii_def NL_def strip_def isspace_def stripped_set_def is_linebreak_def
  is_revoke_sep_def

lemmas ip_eval = is_valid_ip_def ip_address_def IPv4Address_def v4_ip_int_from_string_def
  split_def parse_octet_def py_int_def digit_value_def is_digit_def from_bytes_def
  IPv6Address_def split_scope_id_def v6_ip_int_from_string_def caught_address_error_def

lemma valid_examples:
  "is_valid_ip (ascii ''2.2.2.2'') = Inr True"
  "is_valid_ip (ascii ''9.9.9.9'') = Inr True"
  "is_valid_ip (ascii ''10.0.0.1'') = Inr True"
  "is_valid_ip (ascii ''abc'') = Inr False"
  by (simp_all add: ip_eval ascii_def)

lemma remove_list_clean_examples:
  "remove_list_clean (ascii ''2.2.2.2,9.9.9.9'') = {ascii ''2.2.2.2'', ascii ''9.9.9.9''}"
  "remove_list_clean (ascii ''abc'') = {ascii ''abc''}"
  "remove_list_clean (ascii ''9.9.9.9'') = {ascii ''9.9.9.9''}"
  "remove_list_clean [44] = {}"
  "remove_list_clean [] = {}"
  by (simp_all add: remove_list_clean_def re_split_def string_eval)

lemma parse_examples:
  "get_ips_from_content three_lines NL
     = Inr {ascii ''1.1.1.1'', ascii ''2.2.2.2'', ascii ''3.3.3.3''}"
  "get_ips_from_content (ascii ''10.0.0.1'') NL = Inr {ascii ''10.0.0.1''}"
  "get_ips_from_content (ascii ''1.1.1.1'' @ NL @ ascii ''3.3.3.3'') NL
     = Inr {ascii ''1.1.1.1'', ascii ''3.3.3.3''}"
  by (simp_all add: get_ips_from_content_def splitlines_def string_eval)

lemma distinct_singleton_set:
  assumes "distinct xs" "set xs = {a}"
  shows "xs = [a]"
proof (cases xs)
  case Nil
  with assms show ?thesis by simp
next
  case (Cons x ys)
  with assms have "x = a" by auto
  moreover from Cons assms have "set ys \<subseteq> {a}" "x \<notin> set ys" by auto
  ultimately have "ys = []" by (cases ys) auto
  with Cons \<open>x = a\<close> show ?thesis by simp
qed

lemma scenario_pieces:
  "potential_removals {ascii ''1.1.1.1'', ascii ''2.2.2.2'', ascii ''3.3.3.3''}
      {ascii ''2.2.2.2'', ascii ''9.9.9.9''} = {ascii ''2.2.2.2''}"
  "card {ascii ''1.1.1.1'', ascii ''2.2.2.2'', ascii ''3.3.3.3''} = 3"
  "ips_to_keep {ascii ''1.1.1.1'', ascii ''2.2.2.2'', ascii ''3.3.3.3''}
      {ascii ''2.2.2.2'', ascii ''9.9.9.9''} = {ascii ''1.1.1.1'', ascii ''3.3.3.3''}"
  "serialize {ascii ''1.1.1.1'', ascii ''3.3.3.3''} = ascii ''1.1.1.1'' @ NL @ ascii ''3.3.3.3''"
  by (simp_all add: potential_removals_def ips_to_keep_def serialize_def insert_Diff_if
        ascii_def NL_def)

lemma scenario_hypotheses:
  "uploaded_file (page New_Line three_lines (ascii ''2.2.2.2,9.9.9.9'') True)
     = Some (ascii ''allow.txt'', three_lines)"
  "remove_input (page New_Line three_lines (ascii ''2.2.2.2,9.9.9.9'') True) \<noteq> []"
  "remove_list_clean (remove_input (page New_Line three_lines (ascii ''2.2.2.2,9.9.9.9'') True)) \<noteq> {}"
  "enumerates sorted_list_of_set
     (remove_list_clean (remove_input (page New_Line three_lines (ascii ''2.2.2.2,9.9.9.9'') True)))"
  "\<forall>ip\<in>remove_list_clean (remove_input (page New_Line three_lines (ascii ''2.2.2.2,9.9.9.9'') True)).
      is_valid_ip ip = Inr True"
  "get_ips_from_content three_lines
     (delimiter_values (delimiter_name (page New_Line three_lines (ascii ''2.2.2.2,9.9.9.9'') True)))
     = Inr {ascii ''1.1.1.1'', ascii ''2.2.2.2'', ascii ''3.3.3.3''}"
  "button (page New_Line three_lines (ascii ''2.2.2.2,9.9.9.9'') True)"
       apply simp
      apply (simp add: ascii_def)
     apply (simp add: remove_list_clean_examples)
    apply (simp add: enumerates_sorted remove_list_clean_finite)
   apply (simp add: remove_list_clean_examples valid_examples)
  apply (simp add: parse_examples)
  apply simp
  done

lemma scenario_append:
  "log_audit_event (store_writable env_down) (ledger_clock env_down)
     (Some (ascii ''admin_default'')) (ascii ''allow.txt'')
     (card (potential_removals {ascii ''1.1.1.1'', ascii ''2.2.2.2'', ascii ''3.3.3.3''}
        (remove_list_clean (remove_input (page New_Line three_lines (ascii ''2.2.2.2,9.9.9.9'') True)))))
     (init_db None) = Inl DatabaseError"
  "log_audit_event (store_writable env_ok) (ledger_clock env_ok)
     (Some (ascii ''admin_default'')) (ascii ''allow.txt'')
     (card (potential_removals {ascii ''1.1.1.1'', ascii ''2.2.2.2'', ascii ''3.3.3.3''}
        (remove_list_clean (remove_input (page New_Line three_lines (ascii ''2.2.2.2,9.9.9.9'') True)))))
     (init_db None) =
   Inr \<lparr>audit_events =
          [\<lparr>event_id = 1, timestamp = ascii ''2025-01-01T10:00:00.000001'',
            action = ascii ''Access Revocation Audit'', user_id = Some (ascii ''admin_default''),
            target_file = ascii ''allow.txt'', ips_revoked = 1\<rparr>],
        sqlite_sequence = 1\<rparr>"
  by (simp_all add: log_audit_event_def remove_list_clean_examples scenario_pieces init_db_def
        next_id_def MAX_ROWID_def)

lemma scenario_audit:
  "audit_notice {ascii ''1.1.1.1'', ascii ''2.2.2.2'', ascii ''3.3.3.3''}
     (remove_list_clean (remove_input (page New_Line three_lines (ascii ''2.2.2.2,9.9.9.9'') True)))
   = Warning_audit 1 3"
  by (simp add: audit_notice_def remove_list_clean_examples scenario_pieces)

text \<open>
  Claim C2, as stated, fails: \<open>log_audit_event\<close> is called (line 301) before the
  artifacts are stored in the session (lines 304-307) and nothing catches its exception.
  With a store that rejects the write the run ends with the exception: no download is
  offered and the session is as before. The same request with a store that accepts the
  write delivers the updated list.
\<close>

theorem failed_append_counterexample:
  "interaction env_down (page New_Line three_lines (ascii ''2.2.2.2,9.9.9.9'') True)
       fresh_session None =
     \<lparr>ending = Uncaught DatabaseError, notices = [Warning_audit 1 3], offered = None,
      history = None, session = fresh_session, store = empty_store\<rparr> \<and>
   map_option txt_data
     (offered (interaction env_ok (page New_Line three_lines (ascii ''2.2.2.2,9.9.9.9'') True)
        fresh_session None))
     = Some (ascii ''1.1.1.1'' @ NL @ ascii ''3.3.3.3'')"
proof -
  let ?w = "page New_Line three_lines (ascii ''2.2.2.2,9.9.9.9'') True"
  have d: "enumerates (set_order env_down) (remove_list_clean (remove_input ?w))"
    using scenario_hypotheses(4) by simp
  have k: "enumerates (set_order env_ok) (remove_list_clean (remove_input ?w))"
    using scenario_hypotheses(4) by simp
  from interaction_append_raises [OF scenario_hypotheses(1-3) d scenario_hypotheses(5-7)
      scenario_append(1), of fresh_session]
  have first: "interaction env_down ?w fresh_session None =
     \<lparr>ending = Uncaught DatabaseError, notices = [Warning_audit 1 3], offered = None,
      history = None, session = fresh_session, store = empty_store\<rparr>"
    unfolding scenario_audit by (simp add: init_db_def)
  from interaction_confirmed [OF scenario_hypotheses(1-3) k scenario_hypotheses(5-7)
      scenario_append(2), of fresh_session]
  have "map_option txt_data (offered (interaction env_ok ?w fresh_session None)) =
     Some (serialize (ips_to_keep {ascii ''1.1.1.1'', ascii ''2.2.2.2'', ascii ''3.3.3.3''}
             (remove_list_clean (remove_input ?w))))"
    by (auto simp: Let_def)
  then have second: "map_option txt_data (offered (interaction env_ok ?w fresh_session None)) =
     Some (ascii ''1.1.1.1'' @ NL @ ascii ''3.3.3.3'')"
    by (simp add: remove_list_clean_examples scenario_pieces)
  from first second show ?thesis by (rule conjI)
qed

text \<open>
  Claim C2, amended. If the audit-ledger append fails after a successful reconciliation
  (file uploaded, request non-empty and valid, button pressed), the exception leaves the
  script: the run ends there after the preview notice, the computed updated list and
  report are neither stored in the session nor offered for download, and the session and
  the ledger are as they were before the run.
\<close>

theorem failed_append_blocks_delivery:
  assumes "uploaded_file w = Some (name, content)" "remove_input w \<noteq> []"
    and "remove_list_clean (remove_input w) \<noteq> {}"
    and "enumerates (set_order env) (remove_list_clean (remove_input w))"
    and "\<forall>ip\<in>remove_list_clean (remove_input w). is_valid_ip ip = Inr True"
    and "get_ips_from_content content (delimiter_values (delimiter_name w)) = Inr original"
    and "button w"
    and "log_audit_event (store_writable env) (ledger_clock env) (Some (ascii ''admin_default''))
           name (card (potential_removals original (remove_list_clean (remove_input w))))
           (init_db file) = Inl e"
  shows "interaction env w ss file =
           \<lparr>ending = Uncaught e,
            notices = [audit_notice original (remove_list_clean (remove_input w))],
            offered = None, history = None, session = ss, store = init_db file\<rparr>"
  using assms by (rule interaction_append_raises)

theorem failed_append_blocks_delivery_witness:
  "uploaded_file (page New_Line three_lines (ascii ''2.2.2.2,9.9.9.9'') True)
     = Some (ascii ''allow.txt'', three_lines) \<and>
   remove_input (page New_Line three_lines (ascii ''2.2.2.2,9.9.9.9'') True) \<noteq> [] \<and>
   remove_list_clean (remove_input (page New_Line three_lines (ascii ''2.2.2.2,9.9.9.9'') True))
     = {ascii ''2.2.2.2'', ascii ''9.9.9.9''} \<and>
   is_valid_ip (ascii ''2.2.2.2'') = Inr True \<and> is_valid_ip (ascii ''9.9.9.9'') = Inr True \<and>
   button (page New_Line three_lines (ascii ''2.2.2.2,9.9.9.9'') True) \<and>
   interaction env_down (page New_Line three_lines (ascii ''2.2.2.2,9.9.9.9'') True)
       fresh_session None =
     \<lparr>ending = Uncaught DatabaseError, notices = [Warning_audit 1 3], offered = None,
      history = None, session = fresh_session, store = init_db None\<rparr>"
proof -
  let ?w = "page New_Line three_lines (ascii ''2.2.2.2,9.9.9.9'') True"
  have h4: "enumerates (set_order env_down) (remove_list_clean (remove_input ?w))"
    using scenario_hypotheses(4) by simp
  from failed_append_blocks_delivery [OF scenario_hypotheses(1-3) h4 scenario_hypotheses(5-7)
      scenario_append(1), of fresh_session]
  have "interaction env_down ?w fresh_session None =
        \<lparr>ending = Uncaught DatabaseError, notices = [Warning_audit 1 3], offered = None,
         history = None, session = fresh_session, store = init_db None\<rparr>"
    unfolding scenario_audit .
  then show ?thesis
    using scenario_hypotheses(1,2,7) by (simp add: remove_list_clean_examples valid_examples)
qed

text \<open>
  Claim C5. If an entry of the requested set fails validation, the action stops with the
  validation error, which carries every offending entry of the request, each once (in
  the order in which Python iterates the set); no ledger row is appended (the store is
  as \<open>init_db\<close> found it), no artifact is produced or offered, and the session only
  has its success flag cleared.
\<close>

theorem invalid_request_aborts:
  assumes "uploaded_file w = Some (name, content)" "remove_input w \<noteq> []"
    and "enumerates (set_order env) (remove_list_clean (remove_input w))"
    and "ip \<in> remove_list_clean (remove_input w)" "is_valid_ip ip = Inr False"
  shows "\<exists>invalid.
           interaction env w ss file =
             \<lparr>ending = Stopped, notices = [Error_validation invalid], offered = None,
              history = None, session = ss\<lparr>success := False\<rparr>, store = init_db file\<rparr> \<and>
           set invalid = {ip \<in> remove_list_clean (remove_input w). is_valid_ip ip = Inr False} \<and>
           distinct invalid"
proof -
  let ?requested = "remove_list_clean (remove_input w)"
  let ?invalid = "filter (\<lambda>ip. is_valid_ip ip = Inr False) (set_order env ?requested)"
  from assms(3) have en: "set (set_order env ?requested) = ?requested"
    "distinct (set_order env ?requested)"
    by (simp_all add: enumerates_def)
  have set: "set ?invalid = {ip \<in> ?requested. is_valid_ip ip = Inr False}"
    using en(1) by auto
  from assms(4,5) have "ip \<in> {ip \<in> ?requested. is_valid_ip ip = Inr False}" by simp
  with set have ne: "?invalid \<noteq> []" by (metis empty_iff empty_set)
  from assms(4) have "?requested \<noteq> {}" by blast
  with script_request [OF assms(1,2), of env ss "file"] ne
  have "script env w ss file =
          finish Stopped [Error_validation ?invalid] (ss\<lparr>success := False\<rparr>) (init_db file)"
    by (auto simp: Let_def)
  then have "interaction env w ss file =
             \<lparr>ending = Stopped, notices = [Error_validation ?invalid], offered = None,
              history = None, session = ss\<lparr>success := False\<rparr>, store = init_db file\<rparr>"
    by (simp add: interaction_def finish_def)
  moreover have "distinct ?invalid" using en(2) by simp
  ultimately show ?thesis using set by blast
qed

theorem invalid_request_aborts_witness:
  "uploaded_file (page New_Line (ascii ''10.0.0.1'') (ascii ''abc'') True)
     = Some (ascii ''allow.txt'', ascii ''10.0.0.1'') \<and>
   remove_input (page New_Line (ascii ''10.0.0.1'') (ascii ''abc'') True) \<noteq> [] \<and>
   enumerates (set_order env_ok)
     (remove_list_clean (remove_input (page New_Line (ascii ''10.0.0.1'') (ascii ''abc'') True))) \<and>
   ascii ''abc'' \<in> remove_list_clean (remove_input (page New_Line (ascii ''10.0.0.1'') (ascii ''abc'') True)) \<and>
   is_valid_ip (ascii ''abc'') = Inr False \<and>
   interaction env_ok (page New_Line (ascii ''10.0.0.1'') (ascii ''abc'') True) fresh_session None =
     \<lparr>ending = Stopped, notices = [Error_validation [ascii ''abc'']], offered = None,
      history = None, session = fresh_session\<lparr>success := False\<rparr>, store = empty_store\<rparr>"
proof -
  let ?w = "page New_Line (ascii ''10.0.0.1'') (ascii ''abc'') True"
  have h1: "uploaded_file ?w = Some (ascii ''allow.txt'', ascii ''10.0.0.1'')" by simp
  have h2: "remove_input ?w \<noteq> []" by (simp add: ascii_def)
  have h3: "enumerates (set_order env_ok) (remove_list_clean (remove_input ?w))"
    by (simp add: enumerates_sorted remove_list_clean_finite)
  have h4: "ascii ''abc'' \<in> remove_list_clean (remove_input ?w)"
    by (simp add: remove_list_clean_examples)
  have h5: "is_valid_ip (ascii ''abc'') = Inr False" by (rule valid_examples)
  from invalid_request_aborts [OF h1 h2 h3 h4 h5, of fresh_session None] obtain invalid where
    r: "interaction env_ok ?w fresh_session None =
         \<lparr>ending = Stopped, notices = [Error_validation invalid], offered = None,
          history = None, session = fresh_session\<lparr>success := False\<rparr>, store = init_db None\<rparr>"
    and s: "set invalid = {ip \<in> remove_list_clean (remove_input ?w). is_valid_ip ip = Inr False}"
    and d: "distinct invalid"
    by blast
  have "{ip \<in> remove_list_clean (remove_input ?w). is_valid_ip ip = Inr False} = {ascii ''abc''}"
    using h5 by (auto simp: remove_list_clean_examples)
  with s have "set invalid = {ascii ''abc''}" by (simp only:)
  with d have i: "invalid = [ascii ''abc'']" by (rule distinct_singleton_set)
  have e: "init_db None = empty_store" by (simp add: init_db_def)
  from r have "interaction env_ok ?w fresh_session None =
     \<lparr>ending = Stopped, notices = [Error_validation [ascii ''abc'']], offered = None,
      history = None, session = fresh_session\<lparr>success := False\<rparr>, store = empty_store\<rparr>"
    unfolding i e .
  with h1 h2 h3 h4 h5 show ?thesis by (intro conjI)
qed

text \<open>
  Claim C6, as stated, fails. The request is only looked at when the text area is not
  empty (\<open>if remove_input:\<close>, line 249): for the empty text, whose set of entries is
  empty, the run completes and reports no error. And for a non-empty text that
  normalises to the empty set the session changes: the success flag of an earlier
  action is cleared (line 257).
\<close>

theorem empty_request_counterexample:
  "remove_list_clean [] = {} \<and>
   interaction env_ok (page New_Line three_lines [] True) fresh_session None =
     \<lparr>ending = Completed, notices = [], offered = None, history = Some (Inr []),
      session = fresh_session, store = empty_store\<rparr> \<and>
   remove_list_clean [44] = {} \<and>
   success (session (interaction env_ok (page New_Line three_lines [44] True)
      \<lparr>success = True, updated_content_txt = Some [], pdf_report = Some [],
       file_name_base = Some (ascii ''allow'')\<rparr> None)) = False"
  by (simp add: remove_list_clean_examples interaction_def script_def parse_examples
        downloads_and_history_def fresh_session_def load_audit_logs_def init_db_def finish_def
        order_by_timestamp_desc_def)

text \<open>
  Claim C6, amended. For every original set and every revoke text that is empty after
  normalisation: if the text is not empty, the action stops with the empty-request error
  reported to the user, no ledger row is appended, no artifact is produced or offered,
  and the only change of the session is that its success flag is cleared; if the text is
  empty, the request is skipped without an error and the run goes on to the downloads
  and the history with the session unchanged.
\<close>

theorem empty_request_stops:
  assumes "uploaded_file w = Some (name, content)"
    and "remove_list_clean (remove_input w) = {}"
  shows "interaction env w ss file =
           (if remove_input w = [] then downloads_and_history env [] ss (init_db file)
            else \<lparr>ending = Stopped, notices = [Error_empty], offered = None, history = None,
                  session = ss\<lparr>success := False\<rparr>, store = init_db file\<rparr>)"
proof (cases "remove_input w = []")
  case True
  obtain original where
    "get_ips_from_content content (delimiter_values (delimiter_name w)) = Inr original"
    using get_ips_from_content_returns [OF delimiter_values_nonempty] by blast
  with assms(1) True
  have "script env w ss file = downloads_and_history env [] ss (init_db file)"
    by (simp add: script_def Let_def)
  with True show ?thesis
    by (simp add: interaction_no_rerun downloads_and_history_ending)
next
  case False
  from script_request [OF assms(1) False, of env ss "file"] assms(2)
  have "script env w ss file = finish Stopped [Error_empty] (ss\<lparr>success := False\<rparr>) (init_db file)"
    by (auto simp: Let_def)
  with False show ?thesis by (simp add: interaction_def finish_def)
qed

theorem empty_request_stops_witness:
  "uploaded_file (page New_Line three_lines [44] True) = Some (ascii ''allow.txt'', three_lines) \<and>
   remove_list_clean (remove_input (page New_Line three_lines [44] True)) = {} \<and>
   interaction env_ok (page New_Line three_lines [44] True) fresh_session None =
     \<lparr>ending = Stopped, notices = [Error_empty], offered = None, history = None,
      session = fresh_session\<lparr>success := False\<rparr>, store = init_db None\<rparr>"
  using empty_request_stops [of "page New_Line three_lines [44] True" "ascii ''allow.txt''"
      three_lines env_ok fresh_session None]
  by (simp add: remove_list_clean_examples)

section \<open>The delimiter and the revoke text\<close>

lemma remove_list_clean_tokens:
  "remove_list_clean text =
     {x. x \<noteq> [] \<and> (\<exists>t. segment is_revoke_sep text t \<and> trimmed_of t x)}"
proof -
  have "stripped_set (re_split text) = stripped_set (fields_from is_revoke_sep [] text)"
    unfolding re_split_def by (rule stripped_set_cong_Nil) (rule re_split_from_fields)
  then show ?thesis
    by (simp add: remove_list_clean_def stripped_set_iff fields_from_segment Bex_def conj_commute)
qed

lemma revoke_action_same_parse:
  assumes "get_ips_from_content c1 dv1 = get_ips_from_content c2 dv2"
  shows "revoke_action env language name c1 dv1 requested removals ss db =
         revoke_action env language name c2 dv2 requested removals ss db"
proof (cases "get_ips_from_content c2 dv2")
  case (Inl e)
  with assms have "get_ips_from_content c1 dv1 = Inl e" by simp
  with Inl show ?thesis by (simp add: revoke_action_def update_content_def)
next
  case (Inr original)
  with assms have "get_ips_from_content c1 dv1 = Inr original" by simp
  with Inr show ?thesis by (simp add: revoke_action_def update_content_def)
qed

lemma script_same_parse:
  assumes "get_ips_from_content c1 (delimiter_values d1) = get_ips_from_content c2 (delimiter_values d2)"
  shows "script env (w\<lparr>delimiter_name := d1, uploaded_file := Some (name, c1)\<rparr>) ss file =
         script env (w\<lparr>delimiter_name := d2, uploaded_file := Some (name, c2)\<rparr>) ss file"
proof (cases "get_ips_from_content c2 (delimiter_values d2)")
  case (Inl e)
  with assms show ?thesis by (simp add: script_def)
next
  case (Inr original)
  with assms have 1: "get_ips_from_content c1 (delimiter_values d1) = Inr original" by simp
  show ?thesis
    unfolding script_def Let_def
    by (simp add: 1 Inr revoke_action_same_parse [OF assms]
          cong: sum.case_cong if_cong)
qed

text \<open>
  Claim C10. The revoke text is tokenised by \<open>remove_list_clean\<close>, which takes the text
  alone: its entries are the trimmed, non-empty forms of the stretches of the text
  between runs of commas, line feeds and carriage returns, whatever delimiter is
  selected. The delimiter selection enters a run only through the parse of the uploaded
  file: two selections and contents with the same parse give the same outcome of the
  interaction (notices, downloads, history, session and store) for every revoke text.
\<close>

theorem delimiter_only_parses_upload:
  "remove_list_clean text =
     {x. x \<noteq> [] \<and> (\<exists>t. segment is_revoke_sep text t \<and> trimmed_of t x)} \<and>
   (get_ips_from_content c1 (delimiter_values d1) = get_ips_from_content c2 (delimiter_values d2) \<longrightarrow>
      interaction env (w\<lparr>delimiter_name := d1, uploaded_file := Some (name, c1)\<rparr>) ss file =
      interaction env (w\<lparr>delimiter_name := d2, uploaded_file := Some (name, c2)\<rparr>) ss file)"
proof (intro conjI impI)
  show "remove_list_clean text =
     {x. x \<noteq> [] \<and> (\<exists>t. segment is_revoke_sep text t \<and> trimmed_of t x)}"
    by (rule remove_list_clean_tokens)
next
  assume eq: "get_ips_from_content c1 (delimiter_values d1) = get_ips_from_content c2 (delimiter_values d2)"
  let ?w1 = "w\<lparr>delimiter_name := d1, uploaded_file := Some (name, c1)\<rparr>"
  let ?w2 = "w\<lparr>delimiter_name := d2, uploaded_file := Some (name, c2)\<rparr>"
  have first: "script env ?w1 ss file = script env ?w2 ss file"
    using eq by (rule script_same_parse)
  have r1: "?w1\<lparr>button := False\<rparr> =
      (w\<lparr>button := False\<rparr>)\<lparr>delimiter_name := d1, uploaded_file := Some (name, c1)\<rparr>"
    by (cases w) simp
  have r2: "?w2\<lparr>button := False\<rparr> =
      (w\<lparr>button := False\<rparr>)\<lparr>delimiter_name := d2, uploaded_file := Some (name, c2)\<rparr>"
    by (cases w) simp
  have "script env (?w1\<lparr>button := False\<rparr>) ss' file' = script env (?w2\<lparr>button := False\<rparr>) ss' file'"
    for ss' file'
    unfolding r1 r2 using eq by (rule script_same_parse)
  with first show "interaction env ?w1 ss file = interaction env ?w2 ss file"
    by (simp add: interaction_def Let_def)
qed

lemma parse_two_ways:
  "get_ips_from_content (ascii ''1.1.1.1'' @ NL @ ascii ''2.2.2.2'') (delimiter_values New_Line)
     = Inr {ascii ''1.1.1.1'', ascii ''2.2.2.2''}"
  "get_ips_from_content (ascii ''1.1.1.1,2.2.2.2'') (delimiter_values Comma)
     = Inr {ascii ''1.1.1.1'', ascii ''2.2.2.2''}"
  by (simp_all add: get_ips_from_content_def split_def splitlines_def string_eval)

theorem delimiter_only_parses_upload_witness:
  "get_ips_from_content (ascii ''1.1.1.1'' @ NL @ ascii ''2.2.2.2'') (delimiter_values New_Line)
     = get_ips_from_content (ascii ''1.1.1.1,2.2.2.2'') (delimiter_values Comma) \<and>
   interaction env_ok (page New_Line (ascii ''1.1.1.1'' @ NL @ ascii ''2.2.2.2'') (ascii ''2.2.2.2,9.9.9.9'') True)
       fresh_session None =
   interaction env_ok (page Comma (ascii ''1.1.1.1,2.2.2.2'') (ascii ''2.2.2.2,9.9.9.9'') True)
       fresh_session None"
proof -
  have eq: "get_ips_from_content (ascii ''1.1.1.1'' @ NL @ ascii ''2.2.2.2'') (delimiter_values New_Line)
     = get_ips_from_content (ascii ''1.1.1.1,2.2.2.2'') (delimiter_values Comma)"
    by (simp only: parse_two_ways)
  from delimiter_only_parses_upload [of "[]" "ascii ''1.1.1.1'' @ NL @ ascii ''2.2.2.2''" New_Line
      "ascii ''1.1.1.1,2.2.2.2''" Comma env_ok "ascii ''allow.txt''"
      "page New_Line [] (ascii ''2.2.2.2,9.9.9.9'') True" fresh_session None] eq
  show ?thesis by simp
qed

section \<open>Claims about the report\<close>

lemma stripped_set_normalized: "x \<in> stripped_set raw \<Longrightarrow> normalized x"
  by (auto simp: stripped_set_iff trimmed_of_def normalized_def)

lemma get_ips_normalized:
  assumes "get_ips_from_content content d = Inr S"
  shows "finite S \<and> (\<forall>x\<in>S. normalized x)"
  using assms
  by (auto simp: get_ips_from_content_def split_def stripped_set_normalized
        split: if_splits) (simp_all add: stripped_set_def)

lemma trimmed_of_subset: "trimmed_of t x \<Longrightarrow> set x \<subseteq> set t"
  by (auto simp: trimmed_of_def)

lemma get_ips_newline_plain:
  assumes "get_ips_from_content content NL = Inr S"
  shows "\<forall>x\<in>S. \<forall>c\<in>set x. \<not> is_linebreak c"
proof -
  from assms have "S = stripped_set (splitlines content)"
    by (simp add: get_ips_from_content_def)
  then have S: "S = {x. x \<noteq> [] \<and> (\<exists>t. segment is_linebreak content t \<and> trimmed_of t x)}"
    by (simp add: stripped_set_splitlines)
  show ?thesis
  proof (intro ballI)
    fix x c assume "x \<in> S" "c \<in> set x"
    with S obtain t where t: "segment is_linebreak content t" "trimmed_of t x" by auto
    from t(2) \<open>c \<in> set x\<close> have "c \<in> set t" using trimmed_of_subset by blast
    with t(1) show "\<not> is_linebreak c" by (auto simp: segment_def)
  qed
qed

lemma tables_generate_pdf_report:
  "tables (generate_pdf_report original removals updated language now) =
     [[[Text (total_initial (R language)), Number (card original)],
       [Text (total_removed (R language)), Number (card removals)],
       [Text (total_final (R language)), Number (card updated)]],
      map Text (ip_list_header (R language)) #
        (if removals = {} then [[Text (ascii ''N/A''), Text (status_maintained (R language))]]
         else map (\<lambda>ip. [Text ip, Text (status_removed (R language))])
                (sorted_list_of_set removals))]"
  by (simp add: generate_pdf_report_def summary_data_def ip_data_def)

lemma report_tables:
  assumes "uploaded_file w = Some (name, content)" "remove_input w \<noteq> []"
    and "remove_list_clean (remove_input w) \<noteq> {}"
    and "enumerates (set_order env) (remove_list_clean (remove_input w))"
    and "\<forall>ip\<in>remove_list_clean (remove_input w). is_valid_ip ip = Inr True"
    and "get_ips_from_content content (delimiter_values (delimiter_name w)) = Inr original"
    and "button w"
    and "log_audit_event (store_writable env) (ledger_clock env) (Some (ascii ''admin_default''))
           name (card (potential_removals original (remove_list_clean (remove_input w))))
           (init_db file) = Inr db'"
  shows "\<exists>reparsed pdf.
     get_ips_from_content
       (serialize (ips_to_keep original (remove_list_clean (remove_input w)))) NL = Inr reparsed \<and>
     map_option pdf_data (offered (interaction env w ss file)) = Some pdf \<and>
     tables pdf =
       [[[Text (total_initial (R (lang_selection w))), Number (card original)],
         [Text (total_removed (R (lang_selection w))),
          Number (card (potential_removals original (remove_list_clean (remove_input w))))],
         [Text (total_final (R (lang_selection w))), Number (card reparsed)]],
        map Text (ip_list_header (R (lang_selection w))) #
          (if potential_removals original (remove_list_clean (remove_input w)) = {}
           then [[Text (ascii ''N/A''), Text (status_maintained (R (lang_selection w)))]]
           else map (\<lambda>ip. [Text ip, Text (status_removed (R (lang_selection w)))])
                  (sorted_list_of_set
                     (potential_removals original (remove_list_clean (remove_input w)))))] \<and>
     ((\<forall>x\<in>ips_to_keep original (remove_list_clean (remove_input w)).
          \<forall>c\<in>set x. \<not> is_linebreak c) \<longrightarrow>
        reparsed = ips_to_keep original (remove_list_clean (remove_input w))) \<and>
     (delimiter_name w = New_Line \<longrightarrow>
        reparsed = ips_to_keep original (remove_list_clean (remove_input w)))"
proof -
  let ?requested = "remove_list_clean (remove_input w)"
  let ?retained = "ips_to_keep original ?requested"
  from interaction_confirmed [OF assms, of ss] obtain reparsed where
    re: "get_ips_from_content (serialize ?retained) NL = Inr reparsed"
    and pdf: "map_option pdf_data (offered (interaction env w ss file)) =
       Some (generate_pdf_report original (potential_removals original ?requested) reparsed
               (lang_selection w) (report_clock env))"
    by (auto simp: Let_def)
  from get_ips_normalized [OF assms(6)] have norm: "finite ?retained" "\<forall>x\<in>?retained. normalized x"
    by (auto simp: ips_to_keep_def)
  have plain: "reparsed = ?retained" if "\<forall>x\<in>?retained. \<forall>c\<in>set x. \<not> is_linebreak c"
  proof -
    from norm that have "get_ips_from_content (serialize ?retained) NL = Inr ?retained"
      by (intro serialize_parse_id) auto
    with re show ?thesis by simp
  qed
  have nl: "reparsed = ?retained" if "delimiter_name w = New_Line"
  proof -
    from that assms(6) have "get_ips_from_content content NL = Inr original" by simp
    from get_ips_newline_plain [OF this]
    have "\<forall>x\<in>?retained. \<forall>c\<in>set x. \<not> is_linebreak c" by (auto simp: ips_to_keep_def)
    then show ?thesis by (rule plain)
  qed
  from re pdf plain nl tables_generate_pdf_report show ?thesis by blast
qed

lemma tables_offered:
  "map_option pdf_data (offered r) = Some pdf \<Longrightarrow>
     map_option (\<lambda>d. tables (pdf_data d)) (offered r) = Some (tables pdf)"
  by (cases "offered r") auto

lemma comma_scenario:
  "uploaded_file (page Comma (ascii ''1.1.1.1'' @ NL @ ascii ''2.2.2.2'') (ascii ''9.9.9.9'') True)
     = Some (ascii ''allow.txt'', ascii ''1.1.1.1'' @ NL @ ascii ''2.2.2.2'')"
  "remove_input (page Comma (ascii ''1.1.1.1'' @ NL @ ascii ''2.2.2.2'') (ascii ''9.9.9.9'') True) \<noteq> []"
  "remove_list_clean (remove_input
     (page Comma (ascii ''1.1.1.1'' @ NL @ ascii ''2.2.2.2'') (ascii ''9.9.9.9'') True)) \<noteq> {}"
  "enumerates (set_order env_ok) (remove_list_clean (remove_input
     (page Comma (ascii ''1.1.1.1'' @ NL @ ascii ''2.2.2.2'') (ascii ''9.9.9.9'') True)))"
  "\<forall>ip\<in>remove_list_clean (remove_input
     (page Comma (ascii ''1.1.1.1'' @ NL @ ascii ''2.2.2.2'') (ascii ''9.9.9.9'') True)).
      is_valid_ip ip = Inr True"
  "get_ips_from_content (ascii ''1.1.1.1'' @ NL @ ascii ''2.2.2.2'')
     (delimiter_values (delimiter_name
        (page Comma (ascii ''1.1.1.1'' @ NL @ ascii ''2.2.2.2'') (ascii ''9.9.9.9'') True)))
     = Inr {ascii ''1.1.1.1'' @ NL @ ascii ''2.2.2.2''}"
  "button (page Comma (ascii ''1.1.1.1'' @ NL @ ascii ''2.2.2.2'') (ascii ''9.9.9.9'') True)"
        apply simp
       apply (simp add: ascii_def)
      apply (simp add: remove_list_clean_examples)
     apply (simp add: enumerates_sorted remove_list_clean_finite)
    apply (simp add: remove_list_clean_examples valid_examples)
   apply (simp add: get_ips_from_content_def split_def string_eval)
  apply simp
  done

lemma comma_pieces:
  "potential_removals {ascii ''1.1.1.1'' @ NL @ ascii ''2.2.2.2''} {ascii ''9.9.9.9''} = {}"
  "ips_to_keep {ascii ''1.1.1.1'' @ NL @ ascii ''2.2.2.2''} {ascii ''9.9.9.9''}
     = {ascii ''1.1.1.1'' @ NL @ ascii ''2.2.2.2''}"
  "get_ips_from_content (serialize {ascii ''1.1.1.1'' @ NL @ ascii ''2.2.2.2''}) NL
     = Inr {ascii ''1.1.1.1'', ascii ''2.2.2.2''}"
  "card {ascii ''1.1.1.1'', ascii ''2.2.2.2''} = 2"
  by (simp_all add: potential_removals_def ips_to_keep_def get_ips_from_content_def
        serialize_def splitlines_def string_eval)

lemma comma_append:
  "log_audit_event (store_writable env_ok) (ledger_clock env_ok)
     (Some (ascii ''admin_default'')) (ascii ''allow.txt'')
     (card (potential_removals {ascii ''1.1.1.1'' @ NL @ ascii ''2.2.2.2''}
        (remove_list_clean (remove_input
           (page Comma (ascii ''1.1.1.1'' @ NL @ ascii ''2.2.2.2'') (ascii ''9.9.9.9'') True)))))
     (init_db None) =
   Inr \<lparr>audit_events =
          [\<lparr>event_id = 1, timestamp = ascii ''2025-01-01T10:00:00.000001'',
            action = ascii ''Access Revocation Audit'', user_id = Some (ascii ''admin_default''),
            target_file = ascii ''allow.txt'', ips_revoked = 0\<rparr>],
        sqlite_sequence = 1\<rparr>"
  by (simp add: log_audit_event_def remove_list_clean_examples comma_pieces init_db_def
        next_id_def MAX_ROWID_def)

text \<open>
  Claim C8, as stated, fails in the third count. The page passes to the report, as the
  final set, the parse by lines of the serialised retained list (line 288), and that is
  not always the retained set: the upload \<open>"1.1.1.1\n2.2.2.2"\<close> read with the comma
  delimiter is one address, nothing of it is revoked by the request \<open>9.9.9.9\<close>, the
  retained set has one element, and the report counts 1 initial, 0 removed and 2 final
  addresses.
\<close>

theorem report_contents_counterexample:
  "get_ips_from_content (ascii ''1.1.1.1'' @ NL @ ascii ''2.2.2.2'') (delimiter_values Comma)
     = Inr {ascii ''1.1.1.1'' @ NL @ ascii ''2.2.2.2''} \<and>
   card (ips_to_keep {ascii ''1.1.1.1'' @ NL @ ascii ''2.2.2.2''}
           (remove_list_clean (ascii ''9.9.9.9''))) = 1 \<and>
   map_option (\<lambda>d. tables (pdf_data d))
     (offered (interaction env_ok
        (page Comma (ascii ''1.1.1.1'' @ NL @ ascii ''2.2.2.2'') (ascii ''9.9.9.9'') True)
        fresh_session None)) =
   Some [[[Text (ascii ''Total Initial IPs:''), Number 1],
          [Text (ascii ''Total Removed IPs:''), Number 0],
          [Text (ascii ''Total Final IPs:''), Number 2]],
         [[Text (ascii ''Revoked IP''), Text (ascii ''Status'')],
          [Text (ascii ''N/A''), Text (ascii ''Maintained'')]]]"
proof -
  let ?c = "ascii ''1.1.1.1'' @ NL @ ascii ''2.2.2.2''"
  let ?w = "page Comma ?c (ascii ''9.9.9.9'') True"
  from report_tables [OF comma_scenario comma_append, of fresh_session]
  obtain reparsed pdf where
    re: "get_ips_from_content
       (serialize (ips_to_keep {?c} (remove_list_clean (remove_input ?w)))) NL = Inr reparsed"
    and p: "map_option pdf_data (offered (interaction env_ok ?w fresh_session None)) = Some pdf"
    and t: "tables pdf =
       [[[Text (total_initial (R (lang_selection ?w))), Number (card {?c})],
         [Text (total_removed (R (lang_selection ?w))),
          Number (card (potential_removals {?c} (remove_list_clean (remove_input ?w))))],
         [Text (total_final (R (lang_selection ?w))), Number (card reparsed)]],
        map Text (ip_list_header (R (lang_selection ?w))) #
          (if potential_removals {?c} (remove_list_clean (remove_input ?w)) = {}
           then [[Text (ascii ''N/A''), Text (status_maintained (R (lang_selection ?w)))]]
           else map (\<lambda>ip. [Text ip, Text (status_removed (R (lang_selection ?w)))])
                  (sorted_list_of_set
                     (potential_removals {?c} (remove_list_clean (remove_input ?w)))))]"
    by blast
  from re have r: "reparsed = {ascii ''1.1.1.1'', ascii ''2.2.2.2''}"
    by (simp add: remove_list_clean_examples comma_pieces)
  from t have "tables pdf =
      [[[Text (ascii ''Total Initial IPs:''), Number 1],
          [Text (ascii ''Total Removed IPs:''), Number 0],
          [Text (ascii ''Total Final IPs:''), Number 2]],
         [[Text (ascii ''Revoked IP''), Text (ascii ''Status'')],
          [Text (ascii ''N/A''), Text (ascii ''Maintained'')]]]"
    unfolding r by (simp add: remove_list_clean_examples comma_pieces R_def)
  with tables_offered [OF p] comma_scenario(6) show ?thesis
    by (simp add: remove_list_clean_examples comma_pieces)
qed

text \<open>
  Claim C8, amended. The report rendered for a confirmed action has a summary table with
  exactly three counts: |original|, |matched| and the number of addresses obtained by
  parsing the serialised retained list with the newline delimiter, which is |retained|
  whenever no retained address contains a line boundary, in particular whenever the
  upload was parsed with the newline delimiter; and a detail table that, after its
  header row, lists every address of the matched set, sorted lexicographically, each with
  the fixed revoked-status label, or, when matched is empty, holds the single placeholder
  row instead.
\<close>

theorem report_contents:
  assumes "uploaded_file w = Some (name, content)" "remove_input w \<noteq> []"
    and "remove_list_clean (remove_input w) \<noteq> {}"
    and "enumerates (set_order env) (remove_list_clean (remove_input w))"
    and "\<forall>ip\<in>remove_list_clean (remove_input w). is_valid_ip ip = Inr True"
    and "get_ips_from_content content (delimiter_values (delimiter_name w)) = Inr original"
    and "button w"
    and "log_audit_event (store_writable env) (ledger_clock env) (Some (ascii ''admin_default''))
           name (card (potential_removals original (remove_list_clean (remove_input w))))
           (init_db file) = Inr db'"
  shows "\<exists>reparsed pdf.
     get_ips_from_content
       (serialize (ips_to_keep original (remove_list_clean (remove_input w)))) NL = Inr reparsed \<and>
     map_option pdf_data (offered (interaction env w ss file)) = Some pdf \<and>
     tables pdf =
       [[[Text (total_initial (R (lang_selection w))), Number (card original)],
         [Text (total_removed (R (lang_selection w))),
          Number (card (potential_removals original (remove_list_clean (remove_input w))))],
         [Text (total_final (R (lang_selection w))), Number (card reparsed)]],
        map Text (ip_list_header (R (lang_selection w))) #
          (if potential_removals original (remove_list_clean (remove_input w)) = {}
           then [[Text (ascii ''N/A''), Text (status_maintained (R (lang_selection w)))]]
           else map (\<lambda>ip. [Text ip, Text (status_removed (R (lang_selection w)))])
                  (sorted_list_of_set
                     (potential_removals original (remove_list_clean (remove_input w)))))] \<and>
     ((\<forall>x\<in>ips_to_keep original (remove_list_clean (remove_input w)).
          \<forall>c\<in>set x. \<not> is_linebreak c) \<longrightarrow>
        reparsed = ips_to_keep original (remove_list_clean (remove_input w))) \<and>
     (delimiter_name w = New_Line \<longrightarrow>
        reparsed = ips_to_keep original (remove_list_clean (remove_input w)))"
  using assms by (rule report_tables)

theorem report_contents_witness:
  "uploaded_file (page New_Line three_lines (ascii ''2.2.2.2,9.9.9.9'') True)
     = Some (ascii ''allow.txt'', three_lines) \<and>
   remove_list_clean (remove_input (page New_Line three_lines (ascii ''2.2.2.2,9.9.9.9'') True))
     = {ascii ''2.2.2.2'', ascii ''9.9.9.9''} \<and>
   is_valid_ip (ascii ''2.2.2.2'') = Inr True \<and> is_valid_ip (ascii ''9.9.9.9'') = Inr True \<and>
   button (page New_Line three_lines (ascii ''2.2.2.2,9.9.9.9'') True) \<and>
   map_option (\<lambda>d. tables (pdf_data d))
     (offered (interaction env_ok (page New_Line three_lines (ascii ''2.2.2.2,9.9.9.9'') True)
        fresh_session None)) =
   Some [[[Text (ascii ''Total Initial IPs:''), Number 3],
          [Text (ascii ''Total Removed IPs:''), Number 1],
          [Text (ascii ''Total Final IPs:''), Number 2]],
         [[Text (ascii ''Revoked IP''), Text (ascii ''Status'')],
          [Text (ascii ''2.2.2.2''), Text (ascii ''REVOKED (Match Found)'')]]]"
proof -
  let ?w = "page New_Line three_lines (ascii ''2.2.2.2,9.9.9.9'') True"
  let ?original = "{ascii ''1.1.1.1'', ascii ''2.2.2.2'', ascii ''3.3.3.3''}"
  have k: "enumerates (set_order env_ok) (remove_list_clean (remove_input ?w))"
    using scenario_hypotheses(4) by simp
  from report_contents [OF scenario_hypotheses(1-3) k scenario_hypotheses(5-7)
      scenario_append(2), of fresh_session]
  obtain reparsed pdf where
    p: "map_option pdf_data (offered (interaction env_ok ?w fresh_session None)) = Some pdf"
    and t: "tables pdf =
       [[[Text (total_initial (R (lang_selection ?w))), Number (card ?original)],
         [Text (total_removed (R (lang_selection ?w))),
          Number (card (potential_removals ?original (remove_list_clean (remove_input ?w))))],
         [Text (total_final (R (lang_selection ?w))), Number (card reparsed)]],
        map Text (ip_list_header (R (lang_selection ?w))) #
          (if potential_removals ?original (remove_list_clean (remove_input ?w)) = {}
           then [[Text (ascii ''N/A''), Text (status_maintained (R (lang_selection ?w)))]]
           else map (\<lambda>ip. [Text ip, Text (status_removed (R (lang_selection ?w)))])
                  (sorted_list_of_set
                     (potential_removals ?original (remove_list_clean (remove_input ?w)))))]"
    and n: "delimiter_name ?w = New_Line \<longrightarrow>
        reparsed = ips_to_keep ?original (remove_list_clean (remove_input ?w))"
    by blast
  from n have r: "reparsed = {ascii ''1.1.1.1'', ascii ''3.3.3.3''}"
    by (simp add: remove_list_clean_examples scenario_pieces)
  have c: "card {ascii ''1.1.1.1'', ascii ''3.3.3.3''} = 2" by (simp add: ascii_def)
  from t have "tables pdf =
      [[[Text (ascii ''Total Initial IPs:''), Number 3],
          [Text (ascii ''Total Removed IPs:''), Number 1],
          [Text (ascii ''Total Final IPs:''), Number 2]],
         [[Text (ascii ''Revoked IP''), Text (ascii ''Status'')],
          [Text (ascii ''2.2.2.2''), Text (ascii ''REVOKED (Match Found)'')]]]"
    unfolding r c by (simp add: remove_list_clean_examples scenario_pieces R_def)
  with tables_offered [OF p] show ?thesis
    using scenario_hypotheses(1,7) by (simp add: remove_list_clean_examples valid_examples)
qed

end
